theory Spec2Isabelle
  imports Main "HOL-Library.Sublist"
begin

section \<open>Strings and the library functions the program calls\<close>

text \<open>
  A Go string is a sequence of bytes; it is modelled as a \<open>string\<close>, one \<open>char\<close> per byte.
  The program reads its input through \<open>bufio.Scanner\<close>; the model starts from the
  sequence of lines that \<open>scanner.Text()\<close> delivers.
\<close>

definition byte :: "nat \<Rightarrow> char" where
  "byte n = char_of n"

definition code :: "char \<Rightarrow> nat" where
  "code c = of_char c"

text \<open>The character classes of Go's \<open>regexp\<close> syntax: \<open>\w\<close> is \<open>[0-9A-Za-z_]\<close> and
  \<open>\s\<close> is \<open>[\t\n\f\r ]\<close>, both ASCII only.\<close>

definition wordChar :: "char \<Rightarrow> bool" where
  "wordChar c = ((48 \<le> code c \<and> code c \<le> 57) \<or> (65 \<le> code c \<and> code c \<le> 90)
     \<or> c = CHR ''_'' \<or> (97 \<le> code c \<and> code c \<le> 122))"

definition reSpace :: "char \<Rightarrow> bool" where
  "reSpace c = (c = CHR 0x09 \<or> c = CHR 0x0A \<or> c = CHR 0x0C \<or> c = CHR 0x0D \<or> c = CHR 0x20)"

datatype cls = Space | Word | AnyChar | Ch char

fun inClass :: "cls \<Rightarrow> char \<Rightarrow> bool" where
  "inClass Space c = reSpace c"
| "inClass Word c = wordChar c"
| "inClass AnyChar c = (c \<noteq> CHR 0x0A)"
| "inClass (Ch d) c = (c = d)"

subsection \<open>A backtracking matcher for the regular expressions of the program\<close>

text \<open>
  The patterns of the program use literals, the greedy repetitions \<open>x*\<close> and \<open>x+\<close> and the
  lazy repetition \<open>x+?\<close> of a character class, capture groups, one alternation and the
  anchors \<open>^\<close> and \<open>$\<close>. A pattern is the list of its items in order. Go's \<open>regexp\<close>
  finds the leftmost match and, among the matches that start there, the one a backtracking
  search meets first; \<open>run\<close> is that search at one start position.
\<close>

datatype inst =
    Lit string
  | Star cls
  | Plus cls
  | PlusLazy cls
  | OpenG nat
  | CloseG nat
  | Alt "inst list" "inst list"
  | BeginText
  | EndText

record mstate =
  atStart :: bool
  seen :: string
  opened :: "nat \<Rightarrow> nat"
  groups :: "nat \<Rightarrow> string"

definition adv :: "mstate \<Rightarrow> string \<Rightarrow> mstate" where
  "adv st x = st\<lparr>seen := seen st @ x\<rparr>"

function run :: "inst list \<Rightarrow> mstate \<Rightarrow> string \<Rightarrow> (mstate \<times> string) option" where
  "run [] st s = Some (st, s)"
| "run (Lit x # k) st s =
     (if prefix x s then run k (adv st x) (drop (length x) s) else None)"
| "run (Star c # k) st [] = run k st []"
| "run (Star c # k) st (a # s) =
     (if inClass c a
      then (case run (Star c # k) (adv st [a]) s of
              Some r \<Rightarrow> Some r
            | None \<Rightarrow> run k st (a # s))
      else run k st (a # s))"
| "run (Plus c # k) st [] = None"
| "run (Plus c # k) st (a # s) =
     (if inClass c a then run (Star c # k) (adv st [a]) s else None)"
| "run (PlusLazy c # k) st [] = None"
| "run (PlusLazy c # k) st (a # s) =
     (if inClass c a
      then (case run k (adv st [a]) s of
              Some r \<Rightarrow> Some r
            | None \<Rightarrow> run (PlusLazy c # k) (adv st [a]) s)
      else None)"
| "run (OpenG n # k) st s = run k (st\<lparr>opened := (opened st)(n := length (seen st))\<rparr>) s"
| "run (CloseG n # k) st s =
     run k (st\<lparr>groups := (groups st)(n := drop (opened st n) (seen st))\<rparr>) s"
| "run (Alt p q # k) st s =
     (case run (p @ k) st s of Some r \<Rightarrow> Some r | None \<Rightarrow> run (q @ k) st s)"
| "run (BeginText # k) st s = (if atStart st \<and> seen st = [] then run k st s else None)"
| "run (EndText # k) st s = (if s = [] then run k st s else None)"
  by pat_completeness auto
termination
  by (relation "measures [\<lambda>(p, st, s). length s, \<lambda>(p, st, s). size_list size p]") auto

definition start :: "bool \<Rightarrow> mstate" where
  "start b = \<lparr>atStart = b, seen = [], opened = (\<lambda>n. 0), groups = (\<lambda>n. [])\<rparr>"

fun search :: "inst list \<Rightarrow> bool \<Rightarrow> string \<Rightarrow> (mstate \<times> string) option" where
  "search p b [] = run p (start b) []"
| "search p b (a # s) =
     (case run p (start b) (a # s) of
        Some r \<Rightarrow> Some r
      | None \<Rightarrow> search p False s)"


text \<open>\<open>re.FindStringSubmatch(s)\<close>: \<open>None\<close> is Go's \<open>nil\<close>; otherwise the result maps \<open>0\<close> to
  the whole match and \<open>n\<close> to the text of group \<open>n\<close>. \<open>re.MatchString(s)\<close> tells whether
  there is a match.\<close>

definition FindStringSubmatch :: "inst list \<Rightarrow> string \<Rightarrow> (nat \<Rightarrow> string) option" where
  "FindStringSubmatch p s =
     (case search p True s of
        None \<Rightarrow> None
      | Some (st, rest) \<Rightarrow> Some ((groups st)(0 := seen st)))"

definition MatchString :: "inst list \<Rightarrow> string \<Rightarrow> bool" where
  "MatchString p s = (search p True s \<noteq> None)"

text \<open>
  \<open>re.ReplaceAllStringFunc(src, repl)\<close> copies the text before each match, calls \<open>repl\<close> on
  the match and goes on after the match; the text that \<open>repl\<close> returns is not searched.
  \<open>repl\<close> returns \<open>None\<close> when it panics, and then so does the whole call. The branch of
  a match that consumes nothing is never taken by the pattern of this program, which
  starts with a literal.
\<close>

function ReplaceAllStringFunc ::
  "inst list \<Rightarrow> (string \<Rightarrow> string option) \<Rightarrow> bool \<Rightarrow> string \<Rightarrow> string option" where
  "ReplaceAllStringFunc p repl b s =
     (case run p (start b) s of
        Some (st, rest) \<Rightarrow>
          (if length rest < length s
           then (case repl (seen st) of
                   None \<Rightarrow> None
                 | Some v \<Rightarrow>
                     (case ReplaceAllStringFunc p repl False rest of
                        None \<Rightarrow> None
                      | Some t \<Rightarrow> Some (v @ t)))
           else (case repl [] of
                   None \<Rightarrow> None
                 | Some v \<Rightarrow>
                     (case s of
                        [] \<Rightarrow> Some v
                      | c # cs \<Rightarrow>
                          (case ReplaceAllStringFunc p repl False cs of
                             None \<Rightarrow> None
                           | Some t \<Rightarrow> Some (v @ c # t)))))
      | None \<Rightarrow>
          (case s of
             [] \<Rightarrow> Some []
           | c # cs \<Rightarrow>
               (case ReplaceAllStringFunc p repl False cs of
                  None \<Rightarrow> None
                | Some t \<Rightarrow> Some (c # t))))"
  by pat_completeness auto
termination
  by (relation "measure (\<lambda>(p, repl, b, s). length s)") auto

declare ReplaceAllStringFunc.simps [simp del]

subsection \<open>The functions of package \<open>strings\<close>\<close>

text \<open>
  \<open>strings.TrimSpace\<close> removes the leading and then the trailing white space, as Unicode
  defines it. On bytes these are the six ASCII characters \<open>\t \n \v \f \r\<close> and space, and
  the UTF-8 encodings of U+0085, U+00A0, U+1680, U+2000 to U+200A, U+2028, U+2029, U+202F,
  U+205F and U+3000.
\<close>

definition spaceRunes :: "string list" where
  "spaceRunes =
     [[CHR 0x09], [CHR 0x0A], [CHR 0x0B], [CHR 0x0C], [CHR 0x0D], [CHR 0x20],
      [CHR 0xC2, CHR 0x85], [CHR 0xC2, CHR 0xA0], [CHR 0xE1, CHR 0x9A, CHR 0x80],
      [CHR 0xE2, CHR 0x80, CHR 0x80], [CHR 0xE2, CHR 0x80, CHR 0x81], [CHR 0xE2, CHR 0x80, CHR 0x82],
      [CHR 0xE2, CHR 0x80, CHR 0x83], [CHR 0xE2, CHR 0x80, CHR 0x84], [CHR 0xE2, CHR 0x80, CHR 0x85],
      [CHR 0xE2, CHR 0x80, CHR 0x86], [CHR 0xE2, CHR 0x80, CHR 0x87], [CHR 0xE2, CHR 0x80, CHR 0x88],
      [CHR 0xE2, CHR 0x80, CHR 0x89], [CHR 0xE2, CHR 0x80, CHR 0x8A], [CHR 0xE2, CHR 0x80, CHR 0xA8],
      [CHR 0xE2, CHR 0x80, CHR 0xA9], [CHR 0xE2, CHR 0x80, CHR 0xAF], [CHR 0xE2, CHR 0x81, CHR 0x9F],
      [CHR 0xE3, CHR 0x80, CHR 0x80]]"

function dropRunes :: "string list \<Rightarrow> string \<Rightarrow> string" where
  "dropRunes table s =
     (case find (\<lambda>r. r \<noteq> [] \<and> prefix r s) table of
        None \<Rightarrow> s
      | Some r \<Rightarrow> dropRunes table (drop (length r) s))"
  by pat_completeness auto
termination
proof (relation "measure (\<lambda>(table, s). length s)")
  show "wf (measure (\<lambda>(table, s). length s))" by simp
next
  fix table :: "string list" and s r :: string
  assume "find (\<lambda>r. r \<noteq> [] \<and> prefix r s) table = Some r"
  then have "r \<noteq> [] \<and> prefix r s" by (auto simp: find_Some_iff)
  then show "((table, drop (length r) s), (table, s)) \<in> measure (\<lambda>(table, s). length s)"
    by (auto simp: prefix_def)
qed

declare dropRunes.simps [simp del]

definition TrimSpace :: "string \<Rightarrow> string" where
  "TrimSpace s = rev (dropRunes (map rev spaceRunes) (rev (dropRunes spaceRunes s)))"

definition HasPrefix :: "string \<Rightarrow> string \<Rightarrow> bool" where
  "HasPrefix s p = prefix p s"

fun Join :: "string list \<Rightarrow> string \<Rightarrow> string" where
  "Join [] sep = []"
| "Join [x] sep = x"
| "Join (x # y # xs) sep = x @ sep @ Join (y # xs) sep"

fun Contains :: "string \<Rightarrow> string \<Rightarrow> bool" where
  "Contains [] sub = (sub = [])"
| "Contains (c # s) sub = (prefix sub (c # s) \<or> Contains s sub)"

text \<open>
  \<open>strings.ToLower\<close> maps \<open>A\<close> to \<open>Z\<close> to \<open>a\<close> to \<open>z\<close> when the string is ASCII only.
  Otherwise it decodes the string and maps every code point by the Unicode tables; that
  mapping is the parameter \<open>unicodeLower\<close>.
\<close>

definition asciiLower :: "char \<Rightarrow> char" where
  "asciiLower c = (if 65 \<le> code c \<and> code c \<le> 90 then byte (code c + 32) else c)"

definition ToLower :: "(string \<Rightarrow> string) \<Rightarrow> string \<Rightarrow> string" where
  "ToLower unicodeLower s =
     (if list_all (\<lambda>c. code c < 128) s then map asciiLower s else unicodeLower s)"


section \<open>The program\<close>

record Query =
  Name :: string
  SQL :: string

text \<open>Go's \<open>error\<close> values. The functions modelled here return \<open>nil\<close> only: \<open>None\<close>.\<close>

datatype error = ScanError

subsection \<open>\<open>parseSQL\<close>\<close>

text \<open>The three patterns compiled in \<open>parseSQL\<close>:
  \<^verbatim>\<open>--\s*@name\s*(\w+)\<close>, \<^verbatim>\<open>^---+$\<close> and \<^verbatim>\<open>SET\s+@(\w+)\s*=\s*(.+?)(?:;|$)\<close>.\<close>

definition nameRegex :: "inst list" where
  "nameRegex = [Lit ''--'', Star Space, Lit ''@name'', Star Space, OpenG 1, Plus Word, CloseG 1]"

definition separatorRegex :: "inst list" where
  "separatorRegex = [BeginText, Lit ''--'', Plus (Ch CHR ''-''), EndText]"

definition variableRegex :: "inst list" where
  "variableRegex =
     [Lit ''SET'', Plus Space, Lit ''@'', OpenG 1, Plus Word, CloseG 1, Star Space, Lit ''='',
      Star Space, OpenG 2, PlusLazy AnyChar, CloseG 2, Alt [Lit '';''] [EndText]]"

text \<open>The local variables of \<open>parseSQL\<close> that the loop changes. \<open>currentQuery\<close> is a
  pointer, \<open>nil\<close> until the first separator line.\<close>

record pstate =
  queries :: "Query list"
  currentQuery :: "Query option"
  sqlLines :: "string list"
  variables :: "string \<rightharpoonup> string"

definition newline :: string where
  "newline = [CHR 0x0A]"

text \<open>The statement under construction is appended to \<open>queries\<close> when it has a name;
  the same code runs at a separator line and after the loop.\<close>

definition saveQuery :: "pstate \<Rightarrow> Query list" where
  "saveQuery st =
     (case currentQuery st of
        None \<Rightarrow> queries st
      | Some q \<Rightarrow>
          (if Name q \<noteq> []
           then queries st @ [q\<lparr>SQL := TrimSpace (Join (sqlLines st) newline)\<rparr>]
           else queries st))"

text \<open>One iteration of the loop over the lines of the file.\<close>

definition parseLine :: "pstate \<Rightarrow> string \<Rightarrow> pstate" where
  "parseLine st line =
     (case FindStringSubmatch variableRegex (TrimSpace line) of
        Some matches \<Rightarrow>
          st\<lparr>variables := (variables st)(matches 1 \<mapsto> TrimSpace (matches 2))\<rparr>
      | None \<Rightarrow>
          (if MatchString separatorRegex (TrimSpace line)
           then st\<lparr>queries := saveQuery st,
                   currentQuery := Some \<lparr>Name = [], SQL = []\<rparr>,
                   sqlLines := []\<rparr>
           else
             (case FindStringSubmatch nameRegex line of
                Some matches \<Rightarrow>
                  (case currentQuery st of
                     None \<Rightarrow> st
                   | Some q \<Rightarrow> st\<lparr>currentQuery := Some (q\<lparr>Name := matches 1\<rparr>)\<rparr>)
              | None \<Rightarrow>
                  (if HasPrefix (TrimSpace line) ''--''
                   then st
                   else
                     (case currentQuery st of
                        None \<Rightarrow> st
                      | Some q \<Rightarrow> st\<lparr>sqlLines := sqlLines st @ [line]\<rparr>)))))"

definition initState :: pstate where
  "initState = \<lparr>queries = [], currentQuery = None, sqlLines = [], variables = Map.empty\<rparr>"

text \<open>\<open>parseSQL\<close> on the lines of the file: the statements and the variable table. The
  third result of the Go function is the error of \<open>os.Open\<close> or of the scanner, which the
  loop does not read or change.\<close>

definition parseSQL :: "string list \<Rightarrow> Query list \<times> (string \<rightharpoonup> string)" where
  "parseSQL lines =
     (let st = foldl parseLine initState lines in (saveQuery st, variables st))"

subsection \<open>The earlier \<open>parseSQL\<close>, without variables\<close>

record pstate0 =
  queries0 :: "Query list"
  currentQuery0 :: "Query option"
  sqlLines0 :: "string list"

definition saveQuery0 :: "pstate0 \<Rightarrow> Query list" where
  "saveQuery0 st =
     (case currentQuery0 st of
        None \<Rightarrow> queries0 st
      | Some q \<Rightarrow>
          (if Name q \<noteq> []
           then queries0 st @ [q\<lparr>SQL := TrimSpace (Join (sqlLines0 st) newline)\<rparr>]
           else queries0 st))"

definition parseLine0 :: "pstate0 \<Rightarrow> string \<Rightarrow> pstate0" where
  "parseLine0 st line =
     (if MatchString separatorRegex (TrimSpace line)
      then st\<lparr>queries0 := saveQuery0 st,
              currentQuery0 := Some \<lparr>Name = [], SQL = []\<rparr>,
              sqlLines0 := []\<rparr>
      else
        (case FindStringSubmatch nameRegex line of
           Some matches \<Rightarrow>
             (case currentQuery0 st of
                None \<Rightarrow> st
              | Some q \<Rightarrow> st\<lparr>currentQuery0 := Some (q\<lparr>Name := matches 1\<rparr>)\<rparr>)
         | None \<Rightarrow>
             (if HasPrefix (TrimSpace line) ''--''
              then st
              else
                (case currentQuery0 st of
                   None \<Rightarrow> st
                 | Some q \<Rightarrow> st\<lparr>sqlLines0 := sqlLines0 st @ [line]\<rparr>))))"

definition initState0 :: pstate0 where
  "initState0 = \<lparr>queries0 = [], currentQuery0 = None, sqlLines0 = []\<rparr>"

definition parseSQL0 :: "string list \<Rightarrow> Query list" where
  "parseSQL0 lines = saveQuery0 (foldl parseLine0 initState0 lines)"

subsection \<open>\<open>interpolateVariables\<close>\<close>

text \<open>The pattern \<^verbatim>\<open>@(\w+)\<close>.\<close>

definition variableRefRegex :: "inst list" where
  "variableRefRegex = [Lit ''@'', OpenG 1, Plus Word, CloseG 1]"

text \<open>The function passed to \<open>ReplaceAllStringFunc\<close>. Indexing the result of
  \<open>FindStringSubmatch\<close> panics when there is no match: \<open>None\<close>.\<close>

definition replaceRef :: "(string \<rightharpoonup> string) \<Rightarrow> string \<Rightarrow> string option" where
  "replaceRef vars match =
     (case FindStringSubmatch variableRefRegex match of
        None \<Rightarrow> None
      | Some m \<Rightarrow>
          (case vars (m 1) of
             Some val \<Rightarrow> Some val
           | None \<Rightarrow> Some match))"

text \<open>The result is \<open>None\<close> when the function panics, and otherwise the pair of the text
  and the error that it returns.\<close>

definition interpolateVariables ::
  "string \<Rightarrow> (string \<rightharpoonup> string) \<Rightarrow> (string \<times> error option) option" where
  "interpolateVariables sql vars =
     (case ReplaceAllStringFunc variableRefRegex (replaceRef vars) True sql of
        None \<Rightarrow> None
      | Some result \<Rightarrow> Some (result, None))"

subsection \<open>\<open>containsSchemaChanges\<close> and \<open>containsUpdates\<close>\<close>

definition schemaKeywords :: "string list" where
  "schemaKeywords =
     [''drop table'', ''drop database'', ''drop schema'',
      ''alter table'', ''alter database'', ''alter schema'',
      ''create table'', ''create database'', ''create schema'',
      ''truncate table'', ''truncate'']"

definition updateKeywords :: "string list" where
  "updateKeywords = [''update '', ''delete '', ''delete from'', ''insert'']"

text \<open>The loop over the keywords, which returns at the first one found.\<close>

fun containsKeyword :: "string \<Rightarrow> string list \<Rightarrow> bool" where
  "containsKeyword sql [] = False"
| "containsKeyword sql (keyword # rest) =
     (if Contains sql keyword then True else containsKeyword sql rest)"

definition containsSchemaChanges :: "(string \<Rightarrow> string) \<Rightarrow> string \<Rightarrow> bool" where
  "containsSchemaChanges unicodeLower sql =
     containsKeyword (ToLower unicodeLower sql) schemaKeywords"

definition containsUpdates :: "(string \<Rightarrow> string) \<Rightarrow> string \<Rightarrow> bool" where
  "containsUpdates unicodeLower sql =
     containsKeyword (ToLower unicodeLower sql) updateKeywords"


section \<open>Lines and blocks\<close>

text \<open>
  The words used to state what \<open>parseSQL\<close> computes. A line is classified by the first
  test of the loop body that it passes: variable definition, separator, name annotation,
  other comment, content. A block is the run of lines that follows a separator line, up
  to the next separator line or the end of the file.
\<close>

definition isVariableLine :: "string \<Rightarrow> bool" where
  "isVariableLine line = (FindStringSubmatch variableRegex (TrimSpace line) \<noteq> None)"

definition isSeparatorLine :: "string \<Rightarrow> bool" where
  "isSeparatorLine line =
     (\<not> isVariableLine line \<and> MatchString separatorRegex (TrimSpace line))"

definition annotatedName :: "string \<Rightarrow> string option" where
  "annotatedName line =
     (if isVariableLine line \<or> isSeparatorLine line then None
      else (case FindStringSubmatch nameRegex line of
              None \<Rightarrow> None
            | Some matches \<Rightarrow> Some (matches 1)))"

definition isContentLine :: "string \<Rightarrow> bool" where
  "isContentLine line =
     (\<not> isVariableLine line \<and> \<not> isSeparatorLine line \<and> annotatedName line = None
      \<and> \<not> HasPrefix (TrimSpace line) ''--'')"

definition blockNames :: "string list \<Rightarrow> string list" where
  "blockNames body = List.map_filter annotatedName body"

definition blockText :: "string list \<Rightarrow> string" where
  "blockText body = TrimSpace (Join (filter isContentLine body) newline)"

text \<open>A file made of the lines before the first separator line and then of blocks, each
  given with the separator line that opens it.\<close>

definition fileOf :: "string list \<Rightarrow> (string \<times> string list) list \<Rightarrow> string list" where
  "fileOf preamble blocks = preamble @ concat (map (\<lambda>(sep, body). sep # body) blocks)"


text \<open>The name and the value that a variable-definition line binds.\<close>

definition variableBinding :: "string \<Rightarrow> (string \<times> string) option" where
  "variableBinding line =
     (case FindStringSubmatch variableRegex (TrimSpace line) of
        None \<Rightarrow> None
      | Some matches \<Rightarrow> Some (matches 1, TrimSpace (matches 2)))"

text \<open>The variable pattern matches a text at offset \<open>k\<close>. The search of \<open>FindStringSubmatch\<close>
  tries the offsets from left to right and stops at the first one where this holds.\<close>

definition definitionAt :: "string \<Rightarrow> nat \<Rightarrow> bool" where
  "definitionAt s k = (run variableRegex (start (k = 0)) (drop k s) \<noteq> None)"

text \<open>The part of the parser state that decides the statements.\<close>

definition core :: "pstate \<Rightarrow> Query list \<times> Query option \<times> string list" where
  "core st = (queries st, currentQuery st, sqlLines st)"

definition emptyQuery :: Query where
  "emptyQuery = \<lparr>Name = [], SQL = []\<rparr>"

text \<open>The statements of a list of blocks: one for each block with a name annotation,
  named by the last one.\<close>

definition statementsOf :: "(string \<times> string list) list \<Rightarrow> Query list" where
  "statementsOf blocks =
     map (\<lambda>(sep, body). \<lparr>Name = last (blockNames body), SQL = blockText body\<rparr>)
       (filter (\<lambda>(sep, body). blockNames body \<noteq> []) blocks)"


text \<open>The two versions of the parser are in step when their statement lists, their
  statements under construction and their accumulated lines agree.\<close>

definition sim :: "pstate \<Rightarrow> pstate0 \<Rightarrow> bool" where
  "sim st st0 = (queries st = queries0 st0 \<and> currentQuery st = currentQuery0 st0 \<and> sqlLines st = sqlLines0 st0)"


section \<open>The matcher\<close>

lemma adv_simps [simp]:
  "seen (adv st x) = seen st @ x"
  "atStart (adv st x) = atStart st"
  "opened (adv st x) = opened st"
  "groups (adv st x) = groups st"
  "adv st [] = st"
  "adv (adv st x) y = adv st (x @ y)"
  by (simp_all add: adv_def)

lemma start_simps [simp]:
  "seen (start b) = []"
  "atStart (start b) = b"
  "opened (start b) = (\<lambda>n. 0)"
  "groups (start b) = (\<lambda>n. [])"
  by (simp_all add: start_def)

lemma inClass_Word [simp]: "inClass Word = wordChar"
  by (rule ext) simp

lemma inClass_Space [simp]: "inClass Space = reSpace"
  by (rule ext) simp

lemma takeWhile_stop: "\<not> P y \<Longrightarrow> takeWhile P (xs @ y # ys) = takeWhile P xs"
  by (induction xs) auto

lemma dropWhile_stop: "\<not> P y \<Longrightarrow> dropWhile P (xs @ y # ys) = dropWhile P xs @ y # ys"
  by (induction xs) auto

lemma takeWhile_run:
  "list_all P ws \<Longrightarrow> rest = [] \<or> \<not> P (hd rest) \<Longrightarrow> takeWhile P (ws @ rest) = ws"
  by (cases rest) (simp_all add: list_all_iff)

lemma dropWhile_run:
  "list_all P ws \<Longrightarrow> rest = [] \<or> \<not> P (hd rest) \<Longrightarrow> dropWhile P (ws @ rest) = rest"
  by (cases rest) (simp_all add: list_all_iff)

lemma takeWhile_all: "list_all P ws \<Longrightarrow> takeWhile P ws = ws"
  by (simp add: list_all_iff)

lemma space_not_word: "reSpace a \<Longrightarrow> \<not> wordChar a"
  by (auto simp: reSpace_def wordChar_def code_def)

lemma word_not_space: "wordChar a \<Longrightarrow> \<not> reSpace a \<and> a \<noteq> CHR ''=''"
  by (auto simp: reSpace_def wordChar_def code_def)

lemma space_not_eq: "reSpace a \<Longrightarrow> a \<noteq> CHR ''=''"
  by (auto simp: reSpace_def)

lemma space_not_at: "reSpace c \<Longrightarrow> c \<noteq> CHR ''@'' \<and> c \<noteq> CHR ''S''"
  by (auto simp: reSpace_def)

lemma not_word_at [simp]: "\<not> wordChar CHR ''@''"
  by (simp add: wordChar_def code_def)

text \<open>
  A greedy repetition first takes the longest run of the class. When the rest of the
  pattern cannot match a text that starts with a character of the class, no shorter run
  can do, and the repetition is decided by the longest run.
\<close>

lemma run_Star_commit:
  assumes fails: "\<And>st a s. inClass c a \<Longrightarrow> run k st (a # s) = None"
  shows "run (Star c # k) st s =
         run k (adv st (takeWhile (inClass c) s)) (dropWhile (inClass c) s)"
proof (induction s arbitrary: st)
  case Nil
  show ?case by simp
next
  case (Cons a s)
  show ?case
  proof (cases "inClass c a")
    case True
    then show ?thesis
      using Cons.IH [of "adv st [a]"] fails [of a st s]
      by (simp split: option.split)
  next
    case False
    then show ?thesis by simp
  qed
qed

lemma run_Plus_commit:
  assumes fails: "\<And>st a s. inClass c a \<Longrightarrow> run k st (a # s) = None"
  shows "run (Plus c # k) st s =
         (if takeWhile (inClass c) s = [] then None
          else run k (adv st (takeWhile (inClass c) s)) (dropWhile (inClass c) s))"
proof (cases s)
  case Nil
  then show ?thesis by simp
next
  case (Cons a t)
  then show ?thesis
    using run_Star_commit [where c = c and k = k and st = "adv st [a]" and s = t, OF fails] by simp
qed

text \<open>In any case, a match of the rest of the pattern after the longest run is the first
  match that the search meets.\<close>

lemma run_Star_max:
  "run k (adv st (takeWhile (inClass c) s)) (dropWhile (inClass c) s) = Some r
   \<Longrightarrow> run (Star c # k) st s = Some r"
proof (induction s arbitrary: st)
  case Nil
  then show ?case by simp
next
  case (Cons a s)
  then show ?case
    using Cons.IH [of "adv st [a]"] by (cases "inClass c a") simp_all
qed

lemma run_Plus_max:
  "takeWhile (inClass c) s \<noteq> [] \<Longrightarrow>
   run k (adv st (takeWhile (inClass c) s)) (dropWhile (inClass c) s) = Some r
   \<Longrightarrow> run (Plus c # k) st s = Some r"
  using run_Star_max [where k = k and st = "adv st [hd s]" and c = c and s = "tl s" and r = r]
  by (cases s) (auto split: if_splits)

lemma run_Plus_none: "takeWhile (inClass c) s = [] \<Longrightarrow> run (Plus c # k) st s = None"
  by (cases s) (auto split: if_splits)

lemma run_word_group:
  "run [OpenG n, Plus Word, CloseG n] st s =
     (if takeWhile wordChar s = [] then None
      else Some (st\<lparr>seen := seen st @ takeWhile wordChar s,
                   opened := (opened st)(n := length (seen st)),
                   groups := (groups st)(n := takeWhile wordChar s)\<rparr>,
                 dropWhile wordChar s))"
proof (cases "takeWhile wordChar s = []")
  case True
  then show ?thesis by (simp add: run_Plus_none)
next
  case False
  let ?st1 = "st\<lparr>opened := (opened st)(n := length (seen st))\<rparr>"
  have "run [CloseG n] (adv ?st1 (takeWhile (inClass Word) s)) (dropWhile (inClass Word) s)
        = Some (st\<lparr>seen := seen st @ takeWhile wordChar s,
                   opened := (opened st)(n := length (seen st)),
                   groups := (groups st)(n := takeWhile wordChar s)\<rparr>,
                 dropWhile wordChar s)"
    by (simp add: adv_def)
  from run_Plus_max [OF _ this] False show ?thesis by simp
qed

text \<open>The search over the start positions, from left to right.\<close>

lemma search_Some:
  "search p b s = Some r \<Longrightarrow> \<exists>b' s'. run p (start b') s' = Some r"
proof (induction s arbitrary: b)
  case Nil
  then show ?case by auto
next
  case (Cons a s)
  then show ?case by (cases "run p (start b) (a # s)") auto
qed

lemma search_None:
  "(\<And>p' u. s = p' @ u \<Longrightarrow> run p (start (b \<and> p' = [])) u = None) \<Longrightarrow> search p b s = None"
proof (induction s arbitrary: b)
  case Nil
  then show ?case by simp
next
  case (Cons a s)
  have "run p (start b) (a # s) = None" using Cons.prems [of "[]"] by simp
  moreover have "search p False s = None"
  proof (rule Cons.IH)
    fix p' u assume "s = p' @ u"
    then show "run p (start (False \<and> p' = [])) u = None" using Cons.prems [of "a # p'" u] by simp
  qed
  ultimately show ?case by simp
qed

lemma search_found:
  "run p (start (b \<and> before = [])) s = Some r \<Longrightarrow> \<exists>r'. search p b (before @ s) = Some r'"
proof (induction before arbitrary: b)
  case Nil
  then show ?case by (cases s) auto
next
  case (Cons c u)
  then have "\<exists>r'. search p False (u @ s) = Some r'" by simp
  then show ?case by (cases "run p (start b) (c # u @ s)") auto
qed

lemma search_first:
  assumes "\<forall>j<length before. run p (start (b \<and> j = 0)) (drop j (before @ s)) = None"
    and "s \<noteq> []" and "run p (start (b \<and> before = [])) s = Some r"
  shows "search p b (before @ s) = Some r"
  using assms(1,3)
proof (induction before arbitrary: b)
  case Nil
  then show ?case using assms(2) by (cases s) auto
next
  case (Cons c u)
  have "run p (start b) (c # u @ s) = None" using Cons.prems(1) by auto
  moreover have "search p False (u @ s) = Some r"
  proof (rule Cons.IH)
    show "\<forall>j<length u. run p (start (False \<and> j = 0)) (drop j (u @ s)) = None"
    proof (intro allI impI)
      fix j assume "j < length u"
      then have "run p (start (b \<and> Suc j = 0)) (drop (Suc j) ((c # u) @ s)) = None"
        using Cons.prems(1) by (metis Suc_less_eq length_Cons)
      then show "run p (start (False \<and> j = 0)) (drop j (u @ s)) = None" by simp
    qed
    show "run p (start (False \<and> u = [])) s = Some r" using Cons.prems(2) by simp
  qed
  ultimately show ?case by simp
qed

lemma search_offset:
  "search p b s = Some r \<Longrightarrow> \<exists>k. run p (start (b \<and> k = 0)) (drop k s) = Some r"
proof (induction s arbitrary: b)
  case Nil
  then show ?case by (auto intro: exI [of _ 0])
next
  case (Cons a s)
  show ?case
  proof (cases "run p (start b) (a # s)")
    case None
    then have "search p False s = Some r" using Cons.prems by simp
    from Cons.IH [OF this] obtain k where "run p (start False) (drop k s) = Some r" by auto
    then have "run p (start (b \<and> Suc k = 0)) (drop (Suc k) (a # s)) = Some r" by simp
    then show ?thesis by blast
  next
    case (Some q)
    then have "run p (start (b \<and> (0::nat) = 0)) (drop 0 (a # s)) = Some r"
      using Cons.prems by simp
    then show ?thesis by blast
  qed
qed

section \<open>The risk classifier\<close>

lemma Contains_sublist: "Contains s sub \<longleftrightarrow> sublist sub s"
  by (induction s) (auto simp: sublist_Cons_right)

lemma containsKeyword_iff:
  "containsKeyword sql ks \<longleftrightarrow> (\<exists>k \<in> set ks. sublist k sql)"
  by (induction ks) (auto simp: Contains_sublist)

text \<open>
  Claim C3. For every text, \<open>containsSchemaChanges\<close> holds exactly when the lower-cased
  text contains one of the eleven substrings \<open>drop table\<close>, \<open>drop database\<close>,
  \<open>drop schema\<close>, \<open>alter table\<close>, \<open>alter database\<close>, \<open>alter schema\<close>, \<open>create table\<close>,
  \<open>create database\<close>, \<open>create schema\<close>, \<open>truncate table\<close>, \<open>truncate\<close>, and
  \<open>containsUpdates\<close> holds exactly when it contains one of \<open>update\<close> and \<open>delete\<close>, each
  with a trailing space, \<open>delete from\<close>, \<open>insert\<close>.
\<close>

theorem classifier_keywords:
  "(containsSchemaChanges unicodeLower text \<longleftrightarrow>
      sublist ''drop table'' (ToLower unicodeLower text)
    \<or> sublist ''drop database'' (ToLower unicodeLower text)
    \<or> sublist ''drop schema'' (ToLower unicodeLower text)
    \<or> sublist ''alter table'' (ToLower unicodeLower text)
    \<or> sublist ''alter database'' (ToLower unicodeLower text)
    \<or> sublist ''alter schema'' (ToLower unicodeLower text)
    \<or> sublist ''create table'' (ToLower unicodeLower text)
    \<or> sublist ''create database'' (ToLower unicodeLower text)
    \<or> sublist ''create schema'' (ToLower unicodeLower text)
    \<or> sublist ''truncate table'' (ToLower unicodeLower text)
    \<or> sublist ''truncate'' (ToLower unicodeLower text))
   \<and>
   (containsUpdates unicodeLower text \<longleftrightarrow>
      sublist ''update '' (ToLower unicodeLower text)
    \<or> sublist ''delete '' (ToLower unicodeLower text)
    \<or> sublist ''delete from'' (ToLower unicodeLower text)
    \<or> sublist ''insert'' (ToLower unicodeLower text))"
  unfolding containsSchemaChanges_def containsUpdates_def containsKeyword_iff
    schemaKeywords_def updateKeywords_def
  by simp

section \<open>Interpolation\<close>

text \<open>The pattern \<^verbatim>\<open>@(\w+)\<close> matches at a position exactly when an \<open>@\<close> stands there, followed
  by a word character; the match is the \<open>@\<close> and the longest run of word characters.\<close>

lemma run_variableRefRegex:
  "run variableRefRegex st s =
     (case s of
        [] \<Rightarrow> None
      | c # t \<Rightarrow>
          if c = CHR ''@'' \<and> takeWhile wordChar t \<noteq> []
          then Some (st\<lparr>seen := seen st @ CHR ''@'' # takeWhile wordChar t,
                       opened := (opened st)(1 := Suc (length (seen st))),
                       groups := (groups st)(1 := takeWhile wordChar t)\<rparr>,
                     dropWhile wordChar t)
          else None)"
proof (cases s)
  case Nil
  then show ?thesis by (simp add: variableRefRegex_def)
next
  case (Cons c t)
  show ?thesis
  proof (cases "c = CHR ''@'' \<and> takeWhile wordChar t \<noteq> []")
    case True
    let ?st1 = "(adv st ''@'')\<lparr>opened := (opened st)(1 := Suc (length (seen st)))\<rparr>"
    have "run [CloseG 1] (adv ?st1 (takeWhile (inClass Word) t)) (dropWhile (inClass Word) t)
          = Some (st\<lparr>seen := seen st @ CHR ''@'' # takeWhile wordChar t,
                       opened := (opened st)(1 := Suc (length (seen st))),
                       groups := (groups st)(1 := takeWhile wordChar t)\<rparr>,
                     dropWhile wordChar t)"
      by (simp add: adv_def)
    from run_Plus_max [OF _ this] True Cons show ?thesis
      by (simp add: variableRefRegex_def)
  next
    case False
    then show ?thesis using Cons
      by (auto simp: variableRefRegex_def run_Plus_none)
  qed
qed

lemma FindStringSubmatch_ref:
  assumes "w \<noteq> []" "list_all wordChar w"
  shows "\<exists>m. FindStringSubmatch variableRefRegex (CHR ''@'' # w) = Some m \<and> m 1 = w"
  using assms by (simp add: FindStringSubmatch_def run_variableRefRegex takeWhile_all)

lemma replaceRef_token:
  assumes "w \<noteq> []" "list_all wordChar w"
  shows "replaceRef vars (CHR ''@'' # w) =
         Some (case vars w of Some val \<Rightarrow> val | None \<Rightarrow> CHR ''@'' # w)"
  using FindStringSubmatch_ref [OF assms]
  by (auto simp: replaceRef_def split: option.splits)

lemma replaceAll_Nil:
  "ReplaceAllStringFunc variableRefRegex (replaceRef vars) b [] = Some []"
  by (simp add: ReplaceAllStringFunc.simps [of _ _ _ "[]"] run_variableRefRegex)

lemma replaceAll_Cons:
  "ReplaceAllStringFunc variableRefRegex (replaceRef vars) b (c # t) =
     (if c = CHR ''@'' \<and> takeWhile wordChar t \<noteq> []
      then (case ReplaceAllStringFunc variableRefRegex (replaceRef vars) False
                   (dropWhile wordChar t) of
              None \<Rightarrow> None
            | Some u \<Rightarrow>
                Some ((case vars (takeWhile wordChar t) of
                         Some val \<Rightarrow> val
                       | None \<Rightarrow> CHR ''@'' # takeWhile wordChar t) @ u))
      else (case ReplaceAllStringFunc variableRefRegex (replaceRef vars) False t of
              None \<Rightarrow> None
            | Some u \<Rightarrow> Some (c # u)))"
proof (cases "c = CHR ''@'' \<and> takeWhile wordChar t \<noteq> []")
  case True
  have len: "length (dropWhile wordChar t) < length (c # t)"
    by (simp add: le_imp_less_Suc length_dropWhile_le)
  have all: "list_all wordChar (takeWhile wordChar t)"
    by (simp add: list_all_iff) (meson set_takeWhileD)
  show ?thesis
    using True len replaceRef_token [OF _ all, of vars]
    by (subst ReplaceAllStringFunc.simps) (simp add: run_variableRefRegex)
next
  case False
  then show ?thesis
    by (subst ReplaceAllStringFunc.simps) (auto simp: run_variableRefRegex)
qed

lemma replaceAll_flag:
  "ReplaceAllStringFunc variableRefRegex (replaceRef vars) b s =
   ReplaceAllStringFunc variableRefRegex (replaceRef vars) False s"
  by (cases s) (simp_all add: replaceAll_Nil replaceAll_Cons)

lemma replaceAll_total:
  "\<exists>r. ReplaceAllStringFunc variableRefRegex (replaceRef vars) b s = Some r"
proof (induction s arbitrary: b rule: length_induct)
  case (1 s)
  show ?case
  proof (cases s)
    case Nil
    then show ?thesis by (simp add: replaceAll_Nil)
  next
    case (Cons c t)
    have "length (dropWhile wordChar t) < length s" "length t < length s"
      using Cons by (simp_all add: le_imp_less_Suc length_dropWhile_le)
    with 1 obtain u v where
      "ReplaceAllStringFunc variableRefRegex (replaceRef vars) False (dropWhile wordChar t) = Some u"
      "ReplaceAllStringFunc variableRefRegex (replaceRef vars) False t = Some v"
      by blast
    then show ?thesis using Cons by (simp add: replaceAll_Cons)
  qed
qed

lemma replaceAll_identity:
  "ReplaceAllStringFunc variableRefRegex (replaceRef Map.empty) b s = Some s"
proof (induction s arbitrary: b rule: length_induct)
  case (1 s)
  show ?case
  proof (cases s)
    case Nil
    then show ?thesis by (simp add: replaceAll_Nil)
  next
    case (Cons c t)
    have "length (dropWhile wordChar t) < length s" "length t < length s"
      using Cons by (simp_all add: le_imp_less_Suc length_dropWhile_le)
    with 1 have
      "ReplaceAllStringFunc variableRefRegex (replaceRef Map.empty) False (dropWhile wordChar t)
         = Some (dropWhile wordChar t)"
      "ReplaceAllStringFunc variableRefRegex (replaceRef Map.empty) False t = Some t"
      by blast+
    then show ?thesis using Cons by (simp add: replaceAll_Cons)
  qed
qed

text \<open>
  Claim C10. Interpolation with an empty variable table returns the text unchanged.
\<close>

theorem interpolate_empty_table: "interpolateVariables text Map.empty = Some (text, None)"
  by (simp add: interpolateVariables_def replaceAll_identity)

text \<open>A token splits the text: what precedes it is interpolated as it is on its own, since
  no match can run over the \<open>@\<close> of the token.\<close>

lemma replaceAll_token:
  assumes name: "name \<noteq> []" "list_all wordChar name"
    and post: "post = [] \<or> \<not> wordChar (hd post)"
    and rpost: "ReplaceAllStringFunc variableRefRegex (replaceRef vars) False post = Some post'"
  shows "ReplaceAllStringFunc variableRefRegex (replaceRef vars) False pre = Some pre' \<Longrightarrow>
         ReplaceAllStringFunc variableRefRegex (replaceRef vars) False
           (pre @ CHR ''@'' # name @ post) =
         Some (pre' @ (case vars name of Some val \<Rightarrow> val | None \<Rightarrow> CHR ''@'' # name) @ post')"
proof (induction pre arbitrary: pre' rule: length_induct)
  case (1 pre)
  note t = takeWhile_run [OF name(2) post] dropWhile_run [OF name(2) post]
  show ?case
  proof (cases pre)
    case Nil
    then show ?thesis
      using 1(2) name(1) rpost
      by (auto simp: replaceAll_Nil replaceAll_Cons t split: option.splits)
  next
    case (Cons c u)
    let ?rest = "CHR ''@'' # name @ post"
    have tw: "takeWhile wordChar (u @ ?rest) = takeWhile wordChar u"
      by (rule takeWhile_stop) simp
    have dw: "dropWhile wordChar (u @ ?rest) = dropWhile wordChar u @ ?rest"
      by (rule dropWhile_stop) simp
    show ?thesis
    proof (cases "c = CHR ''@'' \<and> takeWhile wordChar u \<noteq> []")
      case True
      from 1(2) Cons True obtain v where
        v: "ReplaceAllStringFunc variableRefRegex (replaceRef vars) False (dropWhile wordChar u)
              = Some v"
        and pre': "pre' = (case vars (takeWhile wordChar u) of
                             Some val \<Rightarrow> val
                           | None \<Rightarrow> CHR ''@'' # takeWhile wordChar u) @ v"
        by (auto simp: replaceAll_Cons split: option.splits)
      have "length (dropWhile wordChar u) < length pre"
        using Cons by (simp add: le_imp_less_Suc length_dropWhile_le)
      with 1(1) v have
        "ReplaceAllStringFunc variableRefRegex (replaceRef vars) False
           (dropWhile wordChar u @ ?rest) =
         Some (v @ (case vars name of Some val \<Rightarrow> val | None \<Rightarrow> CHR ''@'' # name) @ post')"
        by blast
      then show ?thesis using True Cons pre'
        by (auto simp: replaceAll_Cons tw dw split: option.splits)
    next
      case False
      from 1(2) Cons False obtain v where
        v: "ReplaceAllStringFunc variableRefRegex (replaceRef vars) False u = Some v"
        and pre': "pre' = c # v"
        by (auto simp: replaceAll_Cons split: option.splits)
      have "length u < length pre" using Cons by simp
      with 1(1) v have
        "ReplaceAllStringFunc variableRefRegex (replaceRef vars) False (u @ ?rest) =
         Some (v @ (case vars name of Some val \<Rightarrow> val | None \<Rightarrow> CHR ''@'' # name) @ post')"
        by blast
      then show ?thesis using False Cons pre'
        by (auto simp: replaceAll_Cons tw split: option.splits)
    qed
  qed
qed

lemma interpolate_flag:
  "interpolateVariables sql vars =
     (case ReplaceAllStringFunc variableRefRegex (replaceRef vars) False sql of
        None \<Rightarrow> None
      | Some result \<Rightarrow> Some (result, None))"
  using replaceAll_flag [of vars True sql] by (simp add: interpolateVariables_def)

lemma interpolate_total: "\<exists>r. interpolateVariables sql vars = Some (r, None)"
  using replaceAll_total [of vars False sql] by (auto simp: interpolate_flag)

lemma interpolate_token:
  assumes "name \<noteq> []" "list_all wordChar name" "post = [] \<or> \<not> wordChar (hd post)"
  shows "\<exists>pre' post'.
           interpolateVariables pre vars = Some (pre', None)
         \<and> interpolateVariables post vars = Some (post', None)
         \<and> interpolateVariables (pre @ ''@'' @ name @ post) vars =
             Some (pre' @ (case vars name of Some val \<Rightarrow> val | None \<Rightarrow> ''@'' @ name) @ post',
                   None)"
proof -
  obtain pre' where pre': "ReplaceAllStringFunc variableRefRegex (replaceRef vars) False pre = Some pre'"
    using replaceAll_total by blast
  obtain post' where post': "ReplaceAllStringFunc variableRefRegex (replaceRef vars) False post = Some post'"
    using replaceAll_total by blast
  from replaceAll_token [OF assms post' pre'] pre' post' show ?thesis
    by (auto simp: interpolate_flag split: option.splits)
qed

text \<open>
  Claim C2. A token \<open>@name\<close>, where the name is the maximal run of word characters after
  the \<open>@\<close>, whose name is in the variable table is replaced by the stored value as it is,
  with no quoting added or removed and no escaping. The text before and the text after the
  token are interpolated on their own and the value is not scanned again, even when it
  holds an \<open>@\<close> followed by word characters.
\<close>

theorem interpolate_replaces_verbatim:
  assumes "vars name = Some val"
    and "name \<noteq> []" "list_all wordChar name" "post = [] \<or> \<not> wordChar (hd post)"
  shows "\<exists>pre' post'.
           interpolateVariables pre vars = Some (pre', None)
         \<and> interpolateVariables post vars = Some (post', None)
         \<and> interpolateVariables (pre @ ''@'' @ name @ post) vars = Some (pre' @ val @ post', None)"
  using interpolate_token [OF assms(2-4), of pre vars] assms(1) by simp

text \<open>The value of \<open>x\<close> is the text \<open>@status\<close>, itself the name of a variable, and stays.\<close>

theorem interpolate_replaces_verbatim_witness:
  "[''status'' \<mapsto> [CHR 0x22] @ ''active'' @ [CHR 0x22], ''x'' \<mapsto> ''@status''] ''x'' = Some ''@status''
   \<and> interpolateVariables ''s=''
        [''status'' \<mapsto> [CHR 0x22] @ ''active'' @ [CHR 0x22], ''x'' \<mapsto> ''@status'']
       = Some (''s='', None)
   \<and> interpolateVariables '' AND t=@status;''
        [''status'' \<mapsto> [CHR 0x22] @ ''active'' @ [CHR 0x22], ''x'' \<mapsto> ''@status'']
       = Some ('' AND t='' @ [CHR 0x22] @ ''active'' @ [CHR 0x22] @ '';'', None)
   \<and> interpolateVariables (''s='' @ ''@'' @ ''x'' @ '' AND t=@status;'')
        [''status'' \<mapsto> [CHR 0x22] @ ''active'' @ [CHR 0x22], ''x'' \<mapsto> ''@status'']
       = Some (''s='' @ ''@status'' @ '' AND t='' @ [CHR 0x22] @ ''active'' @ [CHR 0x22] @ '';'', None)"
proof -
  let ?V = "[''status'' \<mapsto> [CHR 0x22] @ ''active'' @ [CHR 0x22], ''x'' \<mapsto> ''@status'']"
  have h: "?V ''x'' = Some ''@status''" "''x'' \<noteq> []" "list_all wordChar ''x''"
    "'' AND t=@status;'' = [] \<or> \<not> wordChar (hd '' AND t=@status;'')"
    by code_simp+
  have e: "interpolateVariables ''s='' ?V = Some (''s='', None)"
    "interpolateVariables '' AND t=@status;'' ?V
       = Some ('' AND t='' @ [CHR 0x22] @ ''active'' @ [CHR 0x22] @ '';'', None)"
    by code_simp+
  from interpolate_replaces_verbatim
         [where vars = ?V and name = "''x''" and val = "''@status''"
            and post = "'' AND t=@status;''" and pre = "''s=''", OF h]
       e h(1)
  show ?thesis by auto
qed

text \<open>
  Claim C4. Interpolation never fails: it neither panics nor returns an error. A token
  \<open>@name\<close> whose name has no entry in the variable table stays as it is, between the
  interpolated text before it and the interpolated text after it.
\<close>

theorem interpolate_keeps_unresolved:
  "(\<exists>r. interpolateVariables text vars = Some (r, None))
   \<and> (vars name = None \<and> name \<noteq> [] \<and> list_all wordChar name
        \<and> (post = [] \<or> \<not> wordChar (hd post))
      \<longrightarrow> (\<exists>pre' post'.
             interpolateVariables pre vars = Some (pre', None)
           \<and> interpolateVariables post vars = Some (post', None)
           \<and> interpolateVariables (pre @ ''@'' @ name @ post) vars =
               Some (pre' @ ''@'' @ name @ post', None)))"
  using interpolate_total [of "text" vars] interpolate_token [of name post pre vars]
  by auto

text \<open>The text and the table of the test \<open>TestInterpolateVariablesWithMissingVar\<close>.\<close>

theorem interpolate_keeps_unresolved_witness:
  "[''status'' \<mapsto> [CHR 0x22] @ ''active'' @ [CHR 0x22]] ''missing_var'' = None
   \<and> interpolateVariables ''SELECT * FROM Users WHERE id=''
        [''status'' \<mapsto> [CHR 0x22] @ ''active'' @ [CHR 0x22]]
       = Some (''SELECT * FROM Users WHERE id='', None)
   \<and> interpolateVariables '' AND status=@status''
        [''status'' \<mapsto> [CHR 0x22] @ ''active'' @ [CHR 0x22]]
       = Some ('' AND status='' @ [CHR 0x22] @ ''active'' @ [CHR 0x22], None)
   \<and> interpolateVariables
        (''SELECT * FROM Users WHERE id='' @ ''@'' @ ''missing_var'' @ '' AND status=@status'')
        [''status'' \<mapsto> [CHR 0x22] @ ''active'' @ [CHR 0x22]]
       = Some (''SELECT * FROM Users WHERE id='' @ ''@'' @ ''missing_var'' @
               '' AND status='' @ [CHR 0x22] @ ''active'' @ [CHR 0x22], None)"
proof -
  let ?V = "[''status'' \<mapsto> [CHR 0x22] @ ''active'' @ [CHR 0x22]]"
  have h: "?V ''missing_var'' = None \<and> ''missing_var'' \<noteq> [] \<and> list_all wordChar ''missing_var''
        \<and> ('' AND status=@status'' = [] \<or> \<not> wordChar (hd '' AND status=@status''))"
    by code_simp
  have e: "interpolateVariables ''SELECT * FROM Users WHERE id='' ?V
         = Some (''SELECT * FROM Users WHERE id='', None)"
    "interpolateVariables '' AND status=@status'' ?V
       = Some ('' AND status='' @ [CHR 0x22] @ ''active'' @ [CHR 0x22], None)"
    by code_simp+
  from interpolate_keeps_unresolved
         [of "''x''" ?V "''missing_var''" "'' AND status=@status''" "''SELECT * FROM Users WHERE id=''"]
       h e
  show ?thesis by auto
qed

section \<open>The parser, line by line\<close>

text \<open>The five cases of the loop body.\<close>

lemma isVariableLine_binding: "isVariableLine l \<longleftrightarrow> variableBinding l \<noteq> None"
  by (simp add: isVariableLine_def variableBinding_def split: option.splits)

lemma parseLine_variable:
  "variableBinding l = Some (n, v) \<Longrightarrow>
   parseLine st l = st\<lparr>variables := (variables st)(n \<mapsto> v)\<rparr>"
  by (auto simp: parseLine_def variableBinding_def split: option.splits)

lemma parseLine_separator:
  "isSeparatorLine l \<Longrightarrow>
   parseLine st l = st\<lparr>queries := saveQuery st, currentQuery := Some emptyQuery, sqlLines := []\<rparr>"
  by (auto simp: parseLine_def isSeparatorLine_def isVariableLine_def emptyQuery_def
      split: option.splits)

lemma parseLine_name:
  "annotatedName l = Some n \<Longrightarrow>
   parseLine st l =
     (case currentQuery st of
        None \<Rightarrow> st
      | Some q \<Rightarrow> st\<lparr>currentQuery := Some (q\<lparr>Name := n\<rparr>)\<rparr>)"
  by (auto simp: parseLine_def annotatedName_def isSeparatorLine_def isVariableLine_def
      split: option.splits if_splits)

lemma parseLine_content:
  "isContentLine l \<Longrightarrow>
   parseLine st l =
     (case currentQuery st of
        None \<Rightarrow> st
      | Some q \<Rightarrow> st\<lparr>sqlLines := sqlLines st @ [l]\<rparr>)"
  by (auto simp: parseLine_def isContentLine_def annotatedName_def isSeparatorLine_def
      isVariableLine_def split: option.splits if_splits)

lemma parseLine_comment:
  "\<not> isVariableLine l \<Longrightarrow> \<not> isSeparatorLine l \<Longrightarrow> annotatedName l = None \<Longrightarrow>
   \<not> isContentLine l \<Longrightarrow> parseLine st l = st"
  by (auto simp: parseLine_def isContentLine_def annotatedName_def isSeparatorLine_def
      isVariableLine_def split: option.splits if_splits)

text \<open>What a line that is no separator does to the statement under construction.\<close>

lemma parseLine_body:
  assumes "\<not> isSeparatorLine l"
  shows "queries (parseLine st l) = queries st"
    and "currentQuery (parseLine st l) =
           (case currentQuery st of
              None \<Rightarrow> None
            | Some q \<Rightarrow>
                Some (case annotatedName l of None \<Rightarrow> q | Some n \<Rightarrow> q\<lparr>Name := n\<rparr>))"
    and "sqlLines (parseLine st l) =
           (case currentQuery st of
              None \<Rightarrow> sqlLines st
            | Some q \<Rightarrow> sqlLines st @ filter isContentLine [l])"
proof -
  consider (var) n v where "variableBinding l = Some (n, v)"
    | (name) n where "\<not> isVariableLine l" "annotatedName l = Some n"
    | (content) "\<not> isVariableLine l" "annotatedName l = None" "isContentLine l"
    | (comment) "\<not> isVariableLine l" "annotatedName l = None" "\<not> isContentLine l"
    by (cases "variableBinding l"; cases "annotatedName l")
       (auto simp: isVariableLine_binding)
  then have "queries (parseLine st l) = queries st
    \<and> currentQuery (parseLine st l) =
           (case currentQuery st of
              None \<Rightarrow> None
            | Some q \<Rightarrow>
                Some (case annotatedName l of None \<Rightarrow> q | Some n \<Rightarrow> q\<lparr>Name := n\<rparr>))
    \<and> sqlLines (parseLine st l) =
           (case currentQuery st of
              None \<Rightarrow> sqlLines st
            | Some q \<Rightarrow> sqlLines st @ filter isContentLine [l])"
  proof cases
    case var
    then have "isVariableLine l" by (simp add: isVariableLine_binding)
    then have "annotatedName l = None" "\<not> isContentLine l"
      by (simp_all add: annotatedName_def isContentLine_def)
    then show ?thesis using var by (simp add: parseLine_variable split: option.splits)
  next
    case name
    then have "\<not> isContentLine l" by (simp add: isContentLine_def)
    then show ?thesis using name by (simp add: parseLine_name split: option.splits)
  next
    case content
    then show ?thesis by (simp add: parseLine_content split: option.splits)
  next
    case comment
    then show ?thesis using assms by (simp add: parseLine_comment split: option.splits)
  qed
  then show "queries (parseLine st l) = queries st"
    and "currentQuery (parseLine st l) =
           (case currentQuery st of
              None \<Rightarrow> None
            | Some q \<Rightarrow>
                Some (case annotatedName l of None \<Rightarrow> q | Some n \<Rightarrow> q\<lparr>Name := n\<rparr>))"
    and "sqlLines (parseLine st l) =
           (case currentQuery st of
              None \<Rightarrow> sqlLines st
            | Some q \<Rightarrow> sqlLines st @ filter isContentLine [l])"
    by simp_all
qed

text \<open>The variable table has no part in the statements.\<close>

lemma saveQuery_core:
  "core st = (qs, cur, ls) \<Longrightarrow>
   saveQuery st =
     (case cur of
        None \<Rightarrow> qs
      | Some q \<Rightarrow> if Name q \<noteq> [] then qs @ [q\<lparr>SQL := TrimSpace (Join ls newline)\<rparr>] else qs)"
  by (auto simp: core_def saveQuery_def split: option.splits)

lemma saveQuery_cong: "core st = core st' \<Longrightarrow> saveQuery st = saveQuery st'"
  by (auto simp: core_def saveQuery_def split: option.splits)

lemma core_parseLine:
  assumes "core st = core st'"
  shows "core (parseLine st l) = core (parseLine st' l)"
proof (cases "isSeparatorLine l")
  case True
  then show ?thesis
    using saveQuery_cong [OF assms] by (simp add: parseLine_separator core_def)
next
  case False
  then show ?thesis
    using assms by (auto simp: core_def parseLine_body split: option.splits)
qed

lemma core_foldl:
  "core st = core st' \<Longrightarrow> core (foldl parseLine st ls) = core (foldl parseLine st' ls)"
proof (induction ls arbitrary: st st')
  case Nil
  then show ?case by simp
next
  case (Cons l ls)
  from Cons.IH [OF core_parseLine [OF Cons.prems]] show ?case by simp
qed

lemma fst_parseSQL: "fst (parseSQL lines) = saveQuery (foldl parseLine initState lines)"
  by (simp add: parseSQL_def Let_def)

lemma snd_parseSQL: "snd (parseSQL lines) = variables (foldl parseLine initState lines)"
  by (simp add: parseSQL_def Let_def)

lemma saveQuery_named:
  "\<forall>q \<in> set (queries st). Name q \<noteq> [] \<Longrightarrow> \<forall>q \<in> set (saveQuery st). Name q \<noteq> []"
  by (auto simp: saveQuery_def split: option.splits if_splits)

lemma queries_named_step:
  assumes "\<forall>q \<in> set (queries st). Name q \<noteq> []"
  shows "\<forall>q \<in> set (queries (parseLine st l)). Name q \<noteq> []"
proof (cases "isSeparatorLine l")
  case True
  then show ?thesis
    using saveQuery_named [OF assms] by (simp add: parseLine_separator)
next
  case False
  then show ?thesis
    using assms by (simp add: parseLine_body)
qed

lemma queries_named_foldl:
  "\<forall>q \<in> set (queries st). Name q \<noteq> [] \<Longrightarrow>
   \<forall>q \<in> set (queries (foldl parseLine st ls)). Name q \<noteq> []"
proof (induction ls arbitrary: st)
  case Nil
  then show ?case by simp
next
  case (Cons l ls)
  from Cons.IH [OF queries_named_step [OF Cons.prems]] show ?case by simp
qed

section \<open>Blocks\<close>

text \<open>The lines before the first separator line change nothing; the lines of a block set
  the name and collect the content lines.\<close>

lemma blockNames_snoc:
  "blockNames (b @ [l]) =
     blockNames b @ (case annotatedName l of None \<Rightarrow> [] | Some n \<Rightarrow> [n])"
  by (simp add: blockNames_def List.map_filter_def split: option.splits)

lemma foldl_preamble:
  "currentQuery st = None \<Longrightarrow> \<forall>l \<in> set ls. \<not> isSeparatorLine l \<Longrightarrow>
   core (foldl parseLine st ls) = core st"
proof (induction ls rule: rev_induct)
  case Nil
  show ?case by simp
next
  case (snoc l ls)
  then have "core (foldl parseLine st ls) = core st" "\<not> isSeparatorLine l" by simp_all
  then show ?case using snoc.prems(1)
    by (simp add: core_def parseLine_body)
qed

lemma foldl_block:
  "currentQuery st = Some q \<Longrightarrow> \<forall>l \<in> set b. \<not> isSeparatorLine l \<Longrightarrow>
   core (foldl parseLine st b) =
     (queries st,
      Some (if blockNames b = [] then q else q\<lparr>Name := last (blockNames b)\<rparr>),
      sqlLines st @ filter isContentLine b)"
proof (induction b rule: rev_induct)
  case Nil
  then show ?case by (simp add: core_def blockNames_def)
next
  case (snoc l b)
  then have ih: "core (foldl parseLine st b) =
     (queries st,
      Some (if blockNames b = [] then q else q\<lparr>Name := last (blockNames b)\<rparr>),
      sqlLines st @ filter isContentLine b)"
    and l: "\<not> isSeparatorLine l" by simp_all
  show ?case using ih
    by (auto simp: core_def parseLine_body [OF l] blockNames_snoc split: option.splits)
qed

text \<open>The name that \<^verbatim>\<open>--\s*@name\s*(\w+)\<close> captures is never empty.\<close>

lemma run_nameRegex:
  "run nameRegex st s =
     (if prefix ''--'' s \<and> prefix ''@name'' (dropWhile reSpace (drop (length ''--'') s))
      then run [OpenG 1, Plus Word, CloseG 1]
             (adv st (''--'' @ takeWhile reSpace (drop (length ''--'') s) @ ''@name'' @
                takeWhile reSpace
                  (drop (length ''@name'') (dropWhile reSpace (drop (length ''--'') s)))))
             (dropWhile reSpace
                (drop (length ''@name'') (dropWhile reSpace (drop (length ''--'') s))))
      else None)"
proof -
  have c2: "run (Star Space # OpenG n # Plus Word # k) st' s' =
            run (OpenG n # Plus Word # k) (adv st' (takeWhile reSpace s'))
              (dropWhile reSpace s')" for st' s' n k
    by (rule run_Star_commit [where c = Space, simplified]) (simp add: space_not_word)
  have c1: "run (Star Space # Lit ''@name'' # k) st' s' =
            run (Lit ''@name'' # k) (adv st' (takeWhile reSpace s')) (dropWhile reSpace s')"
    for st' s' k
    by (rule run_Star_commit [where c = Space, simplified]) (auto simp: reSpace_def)
  show ?thesis
    by (simp add: nameRegex_def c1 c2 del: run.simps(9,10))
qed

lemma run_nameRegex_group:
  assumes "run nameRegex st s = Some (st', r)"
  shows "groups st' 1 \<noteq> [] \<and> list_all wordChar (groups st' 1)"
proof -
  from assms obtain st1 s1 where "run [OpenG 1, Plus Word, CloseG 1] st1 s1 = Some (st', r)"
    by (auto simp: run_nameRegex simp del: run.simps split: if_splits)
  then have "takeWhile wordChar s1 \<noteq> []" "groups st' 1 = takeWhile wordChar s1"
    by (auto simp: run_word_group simp del: run.simps split: if_splits)
  then show ?thesis
    by (simp add: list_all_iff) (meson set_takeWhileD)
qed

lemma FindStringSubmatch_nameRegex:
  assumes "FindStringSubmatch nameRegex l = Some m"
  shows "m 1 \<noteq> [] \<and> list_all wordChar (m 1)"
proof -
  from assms obtain st r where s: "search nameRegex True l = Some (st, r)" and m: "m 1 = groups st 1"
    by (auto simp: FindStringSubmatch_def split: option.splits)
  from search_Some [OF s] run_nameRegex_group m show ?thesis by metis
qed

lemma annotatedName_word:
  "annotatedName l = Some n \<Longrightarrow> n \<noteq> [] \<and> list_all wordChar n"
  using FindStringSubmatch_nameRegex
  by (auto simp: annotatedName_def split: if_splits option.splits)

lemma blockNames_word: "n \<in> set (blockNames b) \<Longrightarrow> n \<noteq> [] \<and> list_all wordChar n"
  using annotatedName_word
  by (auto simp: blockNames_def List.map_filter_def)

lemma fileOf_snoc: "fileOf pre (bs @ [(s, b)]) = fileOf pre bs @ s # b"
  by (simp add: fileOf_def)

lemma file_statements:
  assumes "\<forall>l \<in> set preamble. \<not> isSeparatorLine l"
    and "\<forall>(sep, body) \<in> set blocks. isSeparatorLine sep \<and> (\<forall>l \<in> set body. \<not> isSeparatorLine l)"
  shows "saveQuery (foldl parseLine initState (fileOf preamble blocks)) = statementsOf blocks"
  using assms(2)
proof (induction blocks rule: rev_induct)
  case Nil
  have "core (foldl parseLine initState preamble) = core initState"
    using assms(1) by (intro foldl_preamble) (simp_all add: initState_def)
  then show ?case
    by (simp add: fileOf_def statementsOf_def saveQuery_def core_def initState_def)
next
  case (snoc x bs)
  obtain s b where x: "x = (s, b)" by (cases x)
  let ?st0 = "foldl parseLine initState (fileOf preamble bs)"
  let ?st1 = "parseLine ?st0 s"
  from snoc x have ih: "saveQuery ?st0 = statementsOf bs"
    and s: "isSeparatorLine s" and b: "\<forall>l \<in> set b. \<not> isSeparatorLine l" by auto
  have st1: "queries ?st1 = statementsOf bs" "currentQuery ?st1 = Some emptyQuery"
    "sqlLines ?st1 = []"
    using ih by (simp_all add: parseLine_separator [OF s])
  have c: "core (foldl parseLine ?st1 b) =
     (statementsOf bs,
      Some (if blockNames b = [] then emptyQuery
            else emptyQuery\<lparr>Name := last (blockNames b)\<rparr>),
      filter isContentLine b)"
    using foldl_block [OF st1(2) b] st1 by simp
  have nm: "blockNames b \<noteq> [] \<Longrightarrow> last (blockNames b) \<noteq> []"
    using blockNames_word [of "last (blockNames b)" b] by simp
  show ?case
    using nm by (simp add: x fileOf_snoc saveQuery_core [OF c] statementsOf_def emptyQuery_def
        blockText_def)
qed

text \<open>Every file is made of such a preamble and such blocks.\<close>

lemma file_decomposition:
  "\<exists>preamble blocks.
     lines = fileOf preamble blocks
   \<and> (\<forall>l \<in> set preamble. \<not> isSeparatorLine l)
   \<and> (\<forall>(sep, body) \<in> set blocks. isSeparatorLine sep \<and> (\<forall>l \<in> set body. \<not> isSeparatorLine l))"
proof (induction lines rule: rev_induct)
  case Nil
  have "[] = fileOf [] []" by (simp add: fileOf_def)
  then show ?case by fastforce
next
  case (snoc l ls)
  then obtain preamble blocks where ls: "ls = fileOf preamble blocks"
    and p: "\<forall>l \<in> set preamble. \<not> isSeparatorLine l"
    and b: "\<forall>(sep, body) \<in> set blocks. isSeparatorLine sep \<and> (\<forall>l \<in> set body. \<not> isSeparatorLine l)"
    by blast
  show ?case
  proof (cases "isSeparatorLine l")
    case True
    have "ls @ [l] = fileOf preamble (blocks @ [(l, [])])"
      by (simp add: ls fileOf_snoc)
    moreover have "\<forall>(sep, body) \<in> set (blocks @ [(l, [])]).
        isSeparatorLine sep \<and> (\<forall>l \<in> set body. \<not> isSeparatorLine l)"
      using b True by auto
    ultimately show ?thesis using p by blast
  next
    case False
    show ?thesis
    proof (cases blocks rule: rev_cases)
      case Nil
      have "ls @ [l] = fileOf (preamble @ [l]) []"
        by (simp add: ls Nil fileOf_def)
      moreover have "\<forall>l \<in> set (preamble @ [l]). \<not> isSeparatorLine l"
        using p False by auto
      ultimately show ?thesis by fastforce
    next
      case (snoc bs x)
      obtain s body where x: "x = (s, body)" by (cases x)
      have "ls @ [l] = fileOf preamble (bs @ [(s, body @ [l])])"
        by (simp add: ls snoc x fileOf_snoc)
      moreover have "\<forall>(sep, body) \<in> set (bs @ [(s, body @ [l])]).
          isSeparatorLine sep \<and> (\<forall>l \<in> set body. \<not> isSeparatorLine l)"
        using b False snoc x by auto
      ultimately show ?thesis using p by blast
    qed
  qed
qed

lemma nameless_block:
  assumes s: "isSeparatorLine s"
    and b: "\<forall>l \<in> set body. \<not> isSeparatorLine l \<and> annotatedName l = None"
  shows "core (foldl parseLine (parseLine st s) body) =
         (saveQuery st, Some emptyQuery, filter isContentLine body)"
proof -
  have "blockNames body = []" using b
    by (simp add: blockNames_def List.map_filter_def filter_empty_conv)
  moreover have "currentQuery (parseLine st s) = Some emptyQuery"
    by (simp add: parseLine_separator [OF s])
  ultimately show ?thesis
    using foldl_block [of "parseLine st s" emptyQuery body] b
    by (simp add: parseLine_separator [OF s])
qed

text \<open>
  Claim C5. Every statement that \<open>parseSQL\<close> returns has a non-empty name. A block without a
  name annotation, the empty block between two consecutive separator lines included,
  yields no statement: when a separator line closes it, the file parses as it does without
  the block and its opening separator, and when the end of the file closes it, as the
  lines before the block do.
\<close>

theorem parseSQL_names_nonempty:
  "(\<forall>q \<in> set (fst (parseSQL lines)). Name q \<noteq> [])
   \<and> (isSeparatorLine s \<and> isSeparatorLine s'
        \<and> (\<forall>l \<in> set body. \<not> isSeparatorLine l \<and> annotatedName l = None)
      \<longrightarrow> fst (parseSQL (pre @ s # body @ s' # post)) = fst (parseSQL (pre @ s' # post)))
   \<and> (isSeparatorLine s
        \<and> (\<forall>l \<in> set body. \<not> isSeparatorLine l \<and> annotatedName l = None)
      \<longrightarrow> fst (parseSQL (pre @ s # body)) = fst (parseSQL pre))"
proof (intro conjI impI)
  show "\<forall>q \<in> set (fst (parseSQL lines)). Name q \<noteq> []"
    unfolding fst_parseSQL
    by (rule saveQuery_named, rule queries_named_foldl) (simp add: initState_def)
next
  assume a: "isSeparatorLine s \<and> isSeparatorLine s'
        \<and> (\<forall>l \<in> set body. \<not> isSeparatorLine l \<and> annotatedName l = None)"
  let ?st = "foldl parseLine initState pre"
  have "core (foldl parseLine (parseLine ?st s) body) =
         (saveQuery ?st, Some emptyQuery, filter isContentLine body)"
    using a by (intro nameless_block) simp_all
  from saveQuery_core [OF this]
  have "saveQuery (foldl parseLine (parseLine ?st s) body) = saveQuery ?st"
    by (simp add: emptyQuery_def)
  then have "core (parseLine (foldl parseLine (parseLine ?st s) body) s') = core (parseLine ?st s')"
    using a by (simp add: parseLine_separator core_def)
  then have "core (foldl parseLine (parseLine (foldl parseLine (parseLine ?st s) body) s') post) =
             core (foldl parseLine (parseLine ?st s') post)"
    by (rule core_foldl)
  then have "core (foldl parseLine initState (pre @ s # body @ s' # post)) =
             core (foldl parseLine initState (pre @ s' # post))"
    by simp
  then show "fst (parseSQL (pre @ s # body @ s' # post)) = fst (parseSQL (pre @ s' # post))"
    unfolding fst_parseSQL by (rule saveQuery_cong)
next
  assume a: "isSeparatorLine s
        \<and> (\<forall>l \<in> set body. \<not> isSeparatorLine l \<and> annotatedName l = None)"
  let ?st = "foldl parseLine initState pre"
  have "core (foldl parseLine (parseLine ?st s) body) =
         (saveQuery ?st, Some emptyQuery, filter isContentLine body)"
    using a by (intro nameless_block) simp_all
  from saveQuery_core [OF this]
  show "fst (parseSQL (pre @ s # body)) = fst (parseSQL pre)"
    by (simp add: fst_parseSQL emptyQuery_def)
qed

text \<open>A file with a nameless block between two named ones.\<close>

theorem parseSQL_names_nonempty_witness:
  "isSeparatorLine ''---'' \<and> isSeparatorLine ''----''
   \<and> list_all (\<lambda>l. \<not> isSeparatorLine l \<and> annotatedName l = None) [''SELECT 1;'', ''-- note'']
   \<and> fst (parseSQL ([''---'', ''-- @name A'', ''SELECT 0;''] @ ''---'' # [''SELECT 1;'', ''-- note'']
          @ ''----'' # [''-- @name B'', ''SELECT 2;'']))
       = [\<lparr>Name = ''A'', SQL = ''SELECT 0;''\<rparr>, \<lparr>Name = ''B'', SQL = ''SELECT 2;''\<rparr>]
   \<and> fst (parseSQL ([''---'', ''-- @name A'', ''SELECT 0;''] @ ''----'' # [''-- @name B'', ''SELECT 2;'']))
       = [\<lparr>Name = ''A'', SQL = ''SELECT 0;''\<rparr>, \<lparr>Name = ''B'', SQL = ''SELECT 2;''\<rparr>]
   \<and> fst (parseSQL ([''---'', ''-- @name A'', ''SELECT 0;''] @ ''---'' # [''SELECT 1;'', ''-- note'']))
       = [\<lparr>Name = ''A'', SQL = ''SELECT 0;''\<rparr>]
   \<and> fst (parseSQL [''---'', ''-- @name A'', ''SELECT 0;'']) = [\<lparr>Name = ''A'', SQL = ''SELECT 0;''\<rparr>]
   \<and> fst (parseSQL [''---'', ''---'']) = []"
proof -
  let ?pre = "[''---'', ''-- @name A'', ''SELECT 0;'']"
  let ?body = "[''SELECT 1;'', ''-- note'']"
  let ?post = "[''-- @name B'', ''SELECT 2;'']"
  have h: "isSeparatorLine ''---'' \<and> isSeparatorLine ''----''
        \<and> (\<forall>l \<in> set ?body. \<not> isSeparatorLine l \<and> annotatedName l = None)"
    by code_simp
  have v: "fst (parseSQL (?pre @ ''----'' # ?post))
       = [\<lparr>Name = ''A'', SQL = ''SELECT 0;''\<rparr>, \<lparr>Name = ''B'', SQL = ''SELECT 2;''\<rparr>]"
     "fst (parseSQL ?pre) = [\<lparr>Name = ''A'', SQL = ''SELECT 0;''\<rparr>]"
     "fst (parseSQL [''---'', ''---'']) = []"
    by code_simp+
  from parseSQL_names_nonempty [of "?pre" "''---''" "''----''" ?body ?pre ?post] h v
  show ?thesis
    by (simp only: list_all_iff) blast
qed

text \<open>
  The statements of a file. Let a file be any lines that contain no separator line,
  followed by blocks, each opened by a separator line and holding no separator line. Then
  \<open>parseSQL\<close> returns one statement for each block that holds a name annotation, in the
  order of the blocks. The name is the last name annotation of the block and the text is
  the join by newlines of the content lines of the block, stripped of leading and trailing
  white space, whether a separator line or the end of the file closes the block.
\<close>

lemma parseSQL_blocks:
  assumes "\<forall>l \<in> set preamble. \<not> isSeparatorLine l"
    and "\<forall>(sep, body) \<in> set blocks.
           isSeparatorLine sep \<and> (\<forall>l \<in> set body. \<not> isSeparatorLine l)"
  shows "fst (parseSQL (fileOf preamble blocks)) =
         map (\<lambda>(sep, body). \<lparr>Name = last (blockNames body), SQL = blockText body\<rparr>)
           (filter (\<lambda>(sep, body). blockNames body \<noteq> []) blocks)"
proof -
  have "saveQuery (foldl parseLine initState (fileOf preamble blocks)) = statementsOf blocks"
    using assms by (rule file_statements)
  then show ?thesis by (simp add: fst_parseSQL statementsOf_def)
qed

text \<open>
  Claim C1. The claim gives a statement to an annotated block that lies between the start
  of the file and the first separator line, as to a block between two separator lines.
  \<open>parseSQL\<close> returns none for it: \<open>currentQuery\<close> is \<open>nil\<close> until the first separator line,
  and the annotation and the lines of the block are dropped. In the first file below the
  block \<open>A\<close> is lost and the block \<open>B\<close> is returned. The second file is the example of the
  section \<^emph>\<open>Variables\<close> of the ReadMe, which has no separator line and for which the ReadMe
  gives the output of the query \<open>QueryWithVariables\<close>: \<open>parseSQL\<close> returns no statement for
  it. The third file is that example after a separator line: the statement is returned,
  although no separator line closes its block, since the end of the file closes a block
  as a separator line does.
\<close>

theorem parseSQL_leading_block_dropped:
  "fst (parseSQL [''-- @name A'', ''SELECT 1;'', ''---'', ''-- @name B'', ''SELECT 2;'']) =
     [\<lparr>Name = ''B'', SQL = ''SELECT 2;''\<rparr>]
   \<and> fst (parseSQL
       [''-- @name QueryWithVariables'',
        ''SELECT * FROM orders o, users u'',
        ''WHERE u.id=@user_id '',
        ''AND u.active=@active'',
        ''AND o.status=@status'',
        ''LIMIT @lim;'',
        [],
        ''SET @user_id=2;'',
        ''SET @lim=10;'',
        ''SET @active=true;'',
        ''SET @status='' @ [CHR 0x22] @ ''completed'' @ [CHR 0x22] @ '';'']) = []
   \<and> fst (parseSQL
       [''---'',
        ''-- @name QueryWithVariables'',
        ''SELECT * FROM orders o, users u'',
        ''WHERE u.id=@user_id '',
        ''AND u.active=@active'',
        ''AND o.status=@status'',
        ''LIMIT @lim;'',
        [],
        ''SET @user_id=2;'',
        ''SET @lim=10;'',
        ''SET @active=true;'',
        ''SET @status='' @ [CHR 0x22] @ ''completed'' @ [CHR 0x22] @ '';'']) =
     [\<lparr>Name = ''QueryWithVariables'',
       SQL = ''SELECT * FROM orders o, users u'' @ [CHR 0x0A] @ ''WHERE u.id=@user_id ''
         @ [CHR 0x0A] @ ''AND u.active=@active'' @ [CHR 0x0A] @ ''AND o.status=@status''
         @ [CHR 0x0A] @ ''LIMIT @lim;''\<rparr>]"
  by code_simp

section \<open>Name annotations\<close>

text \<open>\<open>TrimSpace\<close> returns a part of its argument and keeps every \<open>@\<close>.\<close>

lemma dropRunes_suffix: "\<exists>a. s = a @ dropRunes table s"
proof (induction table s rule: dropRunes.induct)
  case (1 table s)
  show ?case
  proof (cases "find (\<lambda>r. r \<noteq> [] \<and> prefix r s) table")
    case None
    then show ?thesis by (simp add: dropRunes.simps [of table s])
  next
    case (Some r)
    with 1 obtain a where "drop (length r) s = a @ dropRunes table (drop (length r) s)"
      by blast
    then have "s = (take (length r) s @ a) @ dropRunes table (drop (length r) s)"
      by (metis append.assoc append_take_drop_id)
    moreover have "dropRunes table s = dropRunes table (drop (length r) s)"
      using Some by (simp add: dropRunes.simps [of table s])
    ultimately show ?thesis by metis
  qed
qed

lemma TrimSpace_infix: "\<exists>a b. s = a @ TrimSpace s @ b"
proof -
  obtain a where a: "s = a @ dropRunes spaceRunes s"
    using dropRunes_suffix by blast
  obtain b where b: "rev (dropRunes spaceRunes s) =
      b @ dropRunes (map rev spaceRunes) (rev (dropRunes spaceRunes s))"
    using dropRunes_suffix by blast
  have "dropRunes spaceRunes s = TrimSpace s @ rev b"
    using arg_cong [OF b, of rev] by (simp add: TrimSpace_def)
  with a show ?thesis by metis
qed

lemma TrimSpace_subset: "set (TrimSpace s) \<subseteq> set s"
proof -
  obtain a b where "s = a @ TrimSpace s @ b" using TrimSpace_infix by blast
  then have "set s = set a \<union> set (TrimSpace s) \<union> set b" by (metis set_append Un_assoc)
  then show ?thesis by blast
qed

text \<open>What \<open>TrimSpace\<close> returns does not end with white space.\<close>

lemma dropRunes_head:
  "r \<in> set table \<Longrightarrow> r \<noteq> [] \<Longrightarrow> \<not> prefix r (dropRunes table s)"
proof (induction table s rule: dropRunes.induct)
  case (1 table s)
  show ?case
  proof (cases "find (\<lambda>r. r \<noteq> [] \<and> prefix r s) table")
    case None
    then have "\<not> prefix r s" using 1(2,3) by (auto simp: find_None_iff)
    then show ?thesis using None by (simp add: dropRunes.simps [of table s])
  next
    case (Some q)
    then show ?thesis using 1 by (simp add: dropRunes.simps [of table s])
  qed
qed

lemma TrimSpace_last: "TrimSpace s \<noteq> [] \<Longrightarrow> \<not> reSpace (last (TrimSpace s))"
proof
  let ?y = "dropRunes (map rev spaceRunes) (rev (dropRunes spaceRunes s))"
  assume ne: "TrimSpace s \<noteq> []" and sp: "reSpace (last (TrimSpace s))"
  have y: "?y \<noteq> []" "last (TrimSpace s) = hd ?y"
    using ne by (simp_all add: TrimSpace_def last_rev)
  have "[hd ?y] \<in> set (map rev spaceRunes)"
    using sp unfolding y(2) reSpace_def spaceRunes_def by auto
  then have "\<not> prefix [hd ?y] ?y" by (rule dropRunes_head) simp
  then show False using y(1) by (cases ?y) simp_all
qed

lemma dropRunes_keeps:
  assumes "c \<in> set s" "\<forall>r \<in> set table. c \<notin> set r"
  shows "c \<in> set (dropRunes table s)"
  using assms
proof (induction table s rule: dropRunes.induct)
  case (1 table s)
  show ?case
  proof (cases "find (\<lambda>r. r \<noteq> [] \<and> prefix r s) table")
    case None
    then show ?thesis using 1 by (simp add: dropRunes.simps [of table s])
  next
    case (Some r)
    then have r: "r \<in> set table" "prefix r s"
      by (auto simp: find_Some_iff)
    then have "s = r @ drop (length r) s" by (auto simp: prefix_def)
    then have "c \<in> set (drop (length r) s)"
      using 1(2,3) r(1) by (metis Un_iff set_append)
    then have "c \<in> set (dropRunes table (drop (length r) s))"
      using 1 Some by blast
    then show ?thesis using Some by (simp add: dropRunes.simps [of table s])
  qed
qed

lemma TrimSpace_keeps_at: "CHR ''@'' \<in> set s \<Longrightarrow> CHR ''@'' \<in> set (TrimSpace s)"
proof -
  assume a: "CHR ''@'' \<in> set s"
  have 1: "\<forall>r \<in> set spaceRunes. CHR ''@'' \<notin> set r" by (simp add: spaceRunes_def)
  have 2: "\<forall>r \<in> set (map rev spaceRunes). CHR ''@'' \<notin> set r" by (simp add: spaceRunes_def)
  have "CHR ''@'' \<in> set (rev (dropRunes spaceRunes s))"
    using dropRunes_keeps [OF a 1] by simp
  from dropRunes_keeps [OF this 2] show ?thesis by (simp add: TrimSpace_def)
qed

text \<open>A match of the variable pattern starts with \<open>SET\<close> and holds an \<open>@\<close>, so a line whose
  only \<open>@\<close> follows dashes and white space is no variable definition.\<close>

lemma run_variableRegex_shape:
  assumes "run variableRegex st s = Some r"
  shows "\<exists>ws t. s = ''SET'' @ ws @ CHR ''@'' # t"
proof -
  have c: "run (Plus Space # Lit ''@'' # k) st' s' =
           (if takeWhile (inClass Space) s' = [] then None
            else run (Lit ''@'' # k) (adv st' (takeWhile (inClass Space) s'))
                   (dropWhile (inClass Space) s'))"
    for k st' s'
    by (rule run_Plus_commit) (auto simp: reSpace_def)
  from assms have p: "prefix ''SET'' s"
    and q: "prefix ''@'' (dropWhile reSpace (drop (length ''SET'') s))"
    by (auto simp: variableRegex_def c simp del: run.simps(9,10) split: if_splits)
  from p obtain s1 where s1: "s = ''SET'' @ s1" by (auto simp: prefix_def)
  from q s1 obtain t where "dropWhile reSpace s1 = CHR ''@'' # t" by (auto simp: prefix_def)
  then have "s1 = takeWhile reSpace s1 @ CHR ''@'' # t"
    by (metis takeWhile_dropWhile_id)
  with s1 show ?thesis by blast
qed

lemma single_at:
  assumes "A @ CHR ''@'' # B = X @ CHR ''@'' # Y"
    and "CHR ''@'' \<notin> set A" "CHR ''@'' \<notin> set B"
  shows "X = A"
proof -
  have "length (filter (\<lambda>c. c = CHR ''@'') (A @ CHR ''@'' # B)) = 1"
    using assms(2,3) by (auto simp: filter_empty_conv)
  then have "length (filter (\<lambda>c. c = CHR ''@'') (X @ CHR ''@'' # Y)) = 1"
    using assms(1) by simp
  then have "filter (\<lambda>c. c = CHR ''@'') X = []" by simp
  then have "CHR ''@'' \<notin> set X" by (auto simp: filter_empty_conv)
  then have "takeWhile (\<lambda>c. c \<noteq> CHR ''@'') (X @ CHR ''@'' # Y) = X"
    by (induction X) auto
  moreover have "takeWhile (\<lambda>c. c \<noteq> CHR ''@'') (A @ CHR ''@'' # B) = A"
    using assms(2) by (induction A) auto
  ultimately show ?thesis using assms(1) by simp
qed

lemma no_variable_before_at:
  assumes L: "line = A @ CHR ''@'' # B"
    and A: "CHR ''@'' \<notin> set A" "CHR ''S'' \<notin> set A" and B: "CHR ''@'' \<notin> set B"
  shows "\<not> isVariableLine line"
proof -
  obtain a b where ab: "line = a @ TrimSpace line @ b" using TrimSpace_infix by blast
  have "search variableRegex True (TrimSpace line) = None"
  proof (rule search_None)
    fix p' u assume u: "TrimSpace line = p' @ u"
    show "run variableRegex (start (True \<and> p' = [])) u = None"
    proof (rule ccontr)
      assume "run variableRegex (start (True \<and> p' = [])) u \<noteq> None"
      then obtain r where "run variableRegex (start (True \<and> p' = [])) u = Some r" by auto
      from run_variableRegex_shape [OF this]
      obtain ws t where "u = ''SET'' @ ws @ CHR ''@'' # t" by blast
      with ab u L have "A @ CHR ''@'' # B = (a @ p' @ ''SET'' @ ws) @ CHR ''@'' # (t @ b)"
        by simp
      from single_at [OF this A(1) B] A(2) show False by auto
    qed
  qed
  then show ?thesis by (simp add: isVariableLine_def FindStringSubmatch_def)
qed

text \<open>A separator line is made of three dashes or more.\<close>

lemma run_separatorRegex:
  "run separatorRegex st s = Some r \<Longrightarrow> list_all (\<lambda>c. c = CHR ''-'') s \<and> 3 \<le> length s"
proof -
  assume a: "run separatorRegex st s = Some r"
  have c: "run (Plus (Ch CHR ''-'') # [EndText]) st' s' =
           (if takeWhile (inClass (Ch CHR ''-'')) s' = [] then None
            else run [EndText] (adv st' (takeWhile (inClass (Ch CHR ''-'')) s'))
                   (dropWhile (inClass (Ch CHR ''-'')) s'))" for st' s'
    by (rule run_Plus_commit) simp
  from a have p: "prefix ''--'' s"
    and t: "takeWhile (inClass (Ch CHR ''-'')) (drop (length ''--'') s) \<noteq> []"
    and d: "dropWhile (inClass (Ch CHR ''-'')) (drop (length ''--'') s) = []"
    by (auto simp: separatorRegex_def c split: if_splits)
  from p obtain s1 where s1: "s = ''--'' @ s1" by (auto simp: prefix_def)
  have "drop (length ''--'') s = s1" by (simp add: s1)
  with t d have t': "takeWhile (inClass (Ch CHR ''-'')) s1 \<noteq> []"
    and d': "dropWhile (inClass (Ch CHR ''-'')) s1 = []" by simp_all
  from t' have "s1 \<noteq> []" by auto
  moreover from d' have "\<forall>c \<in> set s1. c = CHR ''-''" by simp
  ultimately have "list_all (\<lambda>c. c = CHR ''-'') (''--'' @ s1) \<and> 3 \<le> length (''--'' @ s1)"
    by (cases s1) (simp_all add: list_all_iff)
  then show ?thesis by (simp only: s1)
qed

lemma separator_dashes:
  "MatchString separatorRegex s \<Longrightarrow> list_all (\<lambda>c. c = CHR ''-'') s \<and> 3 \<le> length s"
proof -
  assume "MatchString separatorRegex s"
  then obtain r where r: "search separatorRegex True s = Some r"
    by (auto simp: MatchString_def)
  have tail: "search separatorRegex False u = None" for u
    by (rule search_None) (simp add: separatorRegex_def)
  from r have "run separatorRegex (start True) s = Some r"
    by (cases s) (auto simp: tail split: option.splits)
  then show ?thesis by (rule run_separatorRegex)
qed

lemma FindStringSubmatch_name_line:
  assumes ws: "list_all reSpace ws1" "list_all reSpace ws2" "list_all reSpace ws3"
    and name: "name \<noteq> []" "list_all wordChar name"
  shows "\<exists>m. FindStringSubmatch nameRegex (''--'' @ ws1 @ ''@name'' @ ws2 @ name @ ws3) = Some m
           \<and> m 1 = name"
proof -
  let ?L = "''--'' @ ws1 @ ''@name'' @ ws2 @ name @ ws3"
  have hd_name: "\<not> reSpace (hd name)"
    using name space_not_word [of "hd name"] by (cases name) auto
  have hd_ws3: "ws3 = [] \<or> \<not> wordChar (hd ws3)"
    using ws(3) space_not_word [of "hd ws3"] by (cases ws3) auto
  have d1: "dropWhile reSpace (ws1 @ ''@name'' @ ws2 @ name @ ws3) = ''@name'' @ ws2 @ name @ ws3"
    by (rule dropWhile_run [OF ws(1)]) (simp add: reSpace_def)
  have d2: "dropWhile reSpace (ws2 @ name @ ws3) = name @ ws3"
    by (rule dropWhile_run [OF ws(2)]) (use name hd_name in auto)
  have t3: "takeWhile wordChar (name @ ws3) = name"
    by (rule takeWhile_run [OF name(2) hd_ws3])
  have "\<exists>st' r. run nameRegex (start True) ?L = Some (st', r) \<and> groups st' 1 = name"
    using name(1) by (simp add: run_nameRegex d1 [simplified] d2 run_word_group t3 del: run.simps)
  then show ?thesis
    by (auto simp: FindStringSubmatch_def)
qed

lemma name_line_class:
  assumes ws: "list_all reSpace ws1" "list_all reSpace ws2" "list_all reSpace ws3"
    and name: "name \<noteq> []" "list_all wordChar name"
  shows "annotatedName (''--'' @ ws1 @ ''@name'' @ ws2 @ name @ ws3) = Some name"
proof -
  let ?L = "''--'' @ ws1 @ ''@name'' @ ws2 @ name @ ws3"
  have A: "CHR ''@'' \<notin> set (''--'' @ ws1)" "CHR ''S'' \<notin> set (''--'' @ ws1)"
    using ws(1) space_not_at by (auto simp: list_all_iff)
  have B: "CHR ''@'' \<notin> set (''name'' @ ws2 @ name @ ws3)"
    using ws(2,3) name(2) space_not_at not_word_at by (auto simp: list_all_iff)
  have L: "?L = (''--'' @ ws1) @ CHR ''@'' # (''name'' @ ws2 @ name @ ws3)" by simp
  have var: "\<not> isVariableLine ?L"
    by (rule no_variable_before_at [OF L A B])
  have "CHR ''@'' \<in> set (TrimSpace ?L)"
    by (rule TrimSpace_keeps_at) simp
  then have "\<not> list_all (\<lambda>c. c = CHR ''-'') (TrimSpace ?L)"
    by (auto simp: list_all_iff)
  then have sep: "\<not> isSeparatorLine ?L"
    using separator_dashes [of "TrimSpace ?L"] by (auto simp: isSeparatorLine_def)
  from FindStringSubmatch_name_line [OF assms] var sep show ?thesis
    by (auto simp: annotatedName_def)
qed

text \<open>
  Claim C6. The name annotation is recognised whatever the white space: inside a block, a
  line made of \<open>--\<close>, any white space, \<open>@name\<close>, any white space, an identifier and any
  trailing white space gives the block that identifier as its name. The three lines
  \<open>-- @name Foo\<close>, \<open>--   @name   Foo   \<close> and \<open>--@nameFoo\<close> are instances, each of which
  names the block \<open>Foo\<close>.
\<close>

theorem name_annotation_whitespace:
  assumes "currentQuery st = Some q"
    and "list_all reSpace ws1" "list_all reSpace ws2" "list_all reSpace ws3"
    and "name \<noteq> []" "list_all wordChar name"
  shows "parseLine st (''--'' @ ws1 @ ''@name'' @ ws2 @ name @ ws3) =
         st\<lparr>currentQuery := Some (q\<lparr>Name := name\<rparr>)\<rparr>"
  using name_line_class [OF assms(2-6)] assms(1)
  by (simp add: parseLine_name)

text \<open>The three lines of the claim, after a separator line.\<close>

theorem name_annotation_whitespace_witness:
  "currentQuery (parseLine initState ''---'') = Some \<lparr>Name = [], SQL = []\<rparr>
   \<and> parseLine (parseLine initState ''---'') ''-- @name Foo'' =
       (parseLine initState ''---'')\<lparr>currentQuery := Some \<lparr>Name = ''Foo'', SQL = []\<rparr>\<rparr>
   \<and> parseLine (parseLine initState ''---'') ''--   @name   Foo   '' =
       (parseLine initState ''---'')\<lparr>currentQuery := Some \<lparr>Name = ''Foo'', SQL = []\<rparr>\<rparr>
   \<and> parseLine (parseLine initState ''---'') ''--@nameFoo'' =
       (parseLine initState ''---'')\<lparr>currentQuery := Some \<lparr>Name = ''Foo'', SQL = []\<rparr>\<rparr>"
proof -
  have c: "currentQuery (parseLine initState ''---'') = Some \<lparr>Name = [], SQL = []\<rparr>"
    by code_simp
  have w: "list_all reSpace []" "list_all reSpace '' ''" "list_all reSpace ''   ''"
    "''Foo'' \<noteq> []" "list_all wordChar ''Foo''"
    by code_simp+
  from name_annotation_whitespace [OF c w(2) w(2) w(1) w(4) w(5)]
    name_annotation_whitespace [OF c w(3) w(3) w(3) w(4) w(5)]
    name_annotation_whitespace [OF c w(1) w(1) w(1) w(4) w(5)] c
  show ?thesis by simp
qed

section \<open>Variable definitions\<close>

text \<open>The lazy group \<open>(.+?)\<close> and the end \<open>(?:;|$)\<close> of the pattern.\<close>

lemma run_value_group:
  assumes "val \<noteq> []" "CHR 0x0A \<notin> set val" "CHR '';'' \<notin> set (tl val)"
    and "tail = [] \<or> hd tail = CHR '';''"
  shows "\<exists>st' r. run [PlusLazy AnyChar, CloseG 2, Alt [Lit '';''] [EndText]] st (val @ tail)
                  = Some (st', r)
           \<and> groups st' 2 = drop (opened st 2) (seen st @ val)
           \<and> groups st' 1 = groups st 1"
  using assms(1-3)
proof (induction val arbitrary: st)
  case Nil
  then show ?case by simp
next
  case (Cons a v)
  show ?case
  proof (cases v)
    case Nil
    show ?thesis
    proof (cases tail)
      case Nil
      then show ?thesis using \<open>v = []\<close> Cons.prems by simp
    next
      case (Cons b t)
      then have "b = CHR '';''" using assms(4) by simp
      then show ?thesis using \<open>v = []\<close> Cons Cons.prems by simp
    qed
  next
    case (Cons b w)
    then have "run [CloseG 2, Alt [Lit '';''] [EndText]] (adv st [a]) (v @ tail) = None"
      using Cons.prems by auto
    moreover obtain st' r where
      "run [PlusLazy AnyChar, CloseG 2, Alt [Lit '';''] [EndText]] (adv st [a]) (v @ tail)
         = Some (st', r)"
      "groups st' 2 = drop (opened (adv st [a]) 2) (seen (adv st [a]) @ v)"
      "groups st' 1 = groups (adv st [a]) 1"
      using Cons.IH [of "adv st [a]"] Cons Cons.prems by auto
    ultimately show ?thesis using Cons.prems by auto
  qed
qed

lemma run_variableRegex_match:
  assumes ws1: "ws1 \<noteq> []" "list_all reSpace ws1"
    and name: "name \<noteq> []" "list_all wordChar name"
    and ws2: "list_all reSpace ws2" and ws3: "list_all reSpace ws3"
    and val: "val \<noteq> []" "\<not> reSpace (hd val)" "CHR 0x0A \<notin> set val"
      "CHR '';'' \<notin> set (tl val)"
    and tail: "tail = [] \<or> hd tail = CHR '';''"
  shows "\<exists>st' r. run variableRegex st
                    (''SET'' @ ws1 @ ''@'' @ name @ ws2 @ ''='' @ ws3 @ val @ tail) = Some (st', r)
           \<and> groups st' 1 = name \<and> groups st' 2 = val"
proof -
  let ?K3 = "[OpenG 2, PlusLazy AnyChar, CloseG 2, Alt [Lit '';''] [EndText]]"
  let ?K2 = "Lit ''='' # Star Space # ?K3"
  let ?K1 = "CloseG 1 # Star Space # ?K2"
  have c1: "run (Plus Space # Lit ''@'' # k) st' s' =
           (if takeWhile (inClass Space) s' = [] then None
            else run (Lit ''@'' # k) (adv st' (takeWhile (inClass Space) s'))
                   (dropWhile (inClass Space) s'))" for k st' s'
    by (rule run_Plus_commit) (auto simp: reSpace_def)
  have c2: "run (Plus Word # CloseG n # Star Space # Lit ''='' # k) st' s' =
           (if takeWhile (inClass Word) s' = [] then None
            else run (CloseG n # Star Space # Lit ''='' # k)
                   (adv st' (takeWhile (inClass Word) s')) (dropWhile (inClass Word) s'))"
    for st' s' n k
    by (rule run_Plus_commit) (auto dest: word_not_space)
  have c3: "run (Star Space # Lit ''='' # k) st' s' =
            run (Lit ''='' # k) (adv st' (takeWhile (inClass Space) s'))
              (dropWhile (inClass Space) s')"
    for st' s' k
    by (rule run_Star_commit) (auto dest: space_not_eq)
  let ?s5 = "ws3 @ val @ tail"
  let ?s4 = "''='' @ ?s5"
  let ?s3 = "ws2 @ ?s4"
  let ?s2 = "name @ ?s3"
  let ?s1 = "''@'' @ ?s2"
  have t1: "takeWhile reSpace (ws1 @ ?s1) = ws1" "dropWhile reSpace (ws1 @ ?s1) = ?s1"
    by (rule takeWhile_run [OF ws1(2)], simp add: reSpace_def,
        rule dropWhile_run [OF ws1(2)], simp add: reSpace_def)
  have hd3: "?s3 = [] \<or> \<not> wordChar (hd ?s3)"
    using ws2 word_not_space [of "hd ws2"] word_not_space [of "CHR ''=''"]
    by (cases ws2) auto
  have t2: "takeWhile wordChar ?s2 = name" "dropWhile wordChar ?s2 = ?s3"
    by (rule takeWhile_run [OF name(2) hd3], rule dropWhile_run [OF name(2) hd3])
  have t3: "takeWhile reSpace ?s3 = ws2" "dropWhile reSpace ?s3 = ?s4"
    by (rule takeWhile_run [OF ws2], simp add: reSpace_def,
        rule dropWhile_run [OF ws2], simp add: reSpace_def)
  have hd5: "val @ tail = [] \<or> \<not> reSpace (hd (val @ tail))"
    using val(1,2) by (cases val) auto
  have t4: "takeWhile reSpace ?s5 = ws3" "dropWhile reSpace ?s5 = val @ tail"
    by (rule takeWhile_run [OF ws3 hd5], rule dropWhile_run [OF ws3 hd5])
  let ?st3 = "(adv st (''SET'' @ ws1 @ ''@''))\<lparr>opened :=
                (opened st)(1 := length (seen st @ ''SET'' @ ws1 @ ''@''))\<rparr>"
  let ?st5 = "(adv ?st3 name)\<lparr>groups := (groups st)(1 := name)\<rparr>"
  let ?st7 = "adv ?st5 (ws2 @ ''='')"
  let ?st9 = "(adv ?st7 ws3)\<lparr>opened := (opened ?st7)(2 := length (seen ?st7 @ ws3))\<rparr>"
  obtain st' r where
    r: "run [PlusLazy AnyChar, CloseG 2, Alt [Lit '';''] [EndText]] ?st9 (val @ tail) = Some (st', r)"
    and g2: "groups st' 2 = drop (opened ?st9 2) (seen ?st9 @ val)"
    and g1: "groups st' 1 = groups ?st9 1"
    using run_value_group [OF val(1,3,4) tail] by blast
  have "run ?K3 (adv ?st7 (takeWhile (inClass Space) ?s5)) (dropWhile (inClass Space) ?s5)
        = Some (st', r)"
    using r by (simp add: t4)
  then have k3: "run (Star Space # ?K3) ?st7 ?s5 = Some (st', r)"
    by (rule run_Star_max)
  have dr: "drop (4 + length ws1) (CHR ''S'' # CHR ''E'' # CHR ''T'' # ws1 @ CHR ''@'' # name) = name"
    by (simp add: eval_nat_numeral)
  have "run variableRegex st (''SET'' @ ws1 @ ?s1) = run (Star Space # ?K3) ?st7 ?s5"
    using ws1(1) name(1)
    by (simp add: variableRegex_def c1 c2 c3 t1 [simplified] t2 [simplified] t3 [simplified]
        adv_def dr del: run.simps(3,4))
  moreover have o: "opened ?st9 2 = length (seen ?st9)" by (simp add: adv_def)
  have dr2: "drop (length xs) (xs @ val) = val" for xs by simp
  have "groups st' 2 = val" by (simp only: g2 o dr2)
  moreover have "groups st' 1 = name" using g1 by (simp add: adv_def)
  ultimately show ?thesis using k3 by simp
qed

text \<open>A text that the pattern matches from its start reads \<open>SET\<close>, white space, \<open>@\<close>, a name,
  \<open>=\<close> with any white space before it, and one character at least.\<close>

lemma run_space_at:
  "run (Plus Space # Lit ''@'' # k) st s =
     (if takeWhile (inClass Space) s = [] then None
      else run (Lit ''@'' # k) (adv st (takeWhile (inClass Space) s))
             (dropWhile (inClass Space) s))"
  by (rule run_Plus_commit) (auto simp: reSpace_def)

lemma run_word_eq:
  "run (Plus Word # CloseG n # Star Space # Lit ''='' # k) st s =
     (if takeWhile (inClass Word) s = [] then None
      else run (CloseG n # Star Space # Lit ''='' # k) (adv st (takeWhile (inClass Word) s))
             (dropWhile (inClass Word) s))"
  by (rule run_Plus_commit) (auto dest: word_not_space)

lemma run_space_eq:
  "run (Star Space # Lit ''='' # k) st s =
     run (Lit ''='' # k) (adv st (takeWhile (inClass Space) s)) (dropWhile (inClass Space) s)"
  by (rule run_Star_commit) (auto dest: space_not_eq)

lemma prefix_split: "prefix x y \<Longrightarrow> y = x @ drop (length x) y"
  by (auto simp: prefix_def)

lemma run_variableRegex_text:
  assumes "run variableRegex st s = Some r"
  shows "\<exists>ws1 name ws2 r4. s = ''SET'' @ ws1 @ ''@'' @ name @ ws2 @ ''='' @ r4
           \<and> ws1 \<noteq> [] \<and> list_all reSpace ws1 \<and> name \<noteq> [] \<and> list_all wordChar name
           \<and> list_all reSpace ws2 \<and> r4 \<noteq> []"
proof -
  let ?K = "[OpenG 2, PlusLazy AnyChar, CloseG 2, Alt [Lit '';''] [EndText]]"
  define r1 where "r1 = drop (length ''SET'') s"
  define ws1 where "ws1 = takeWhile reSpace r1"
  define d1 where "d1 = dropWhile reSpace r1"
  define r2 where "r2 = drop (length ''@'') d1"
  define name where "name = takeWhile wordChar r2"
  define ws2 where "ws2 = takeWhile reSpace (dropWhile wordChar r2)"
  define r3 where "r3 = dropWhile reSpace (dropWhile wordChar r2)"
  define r4 where "r4 = drop (length ''='') r3"
  have lit: "run (Lit x # k) st' s' = Some r \<Longrightarrow>
             prefix x s' \<and> run k (adv st' x) (drop (length x) s') = Some r" for x k st' s'
    by (simp split: if_splits)
  have sp: "run (Plus Space # Lit ''@'' # k) st' s' = Some r \<Longrightarrow>
            takeWhile reSpace s' \<noteq> [] \<and>
            run (Lit ''@'' # k) (adv st' (takeWhile reSpace s')) (dropWhile reSpace s') = Some r"
    for k st' s'
    by (simp add: run_space_at split: if_splits)
  have wd: "takeWhile wordChar s' \<noteq> [] \<and>
            (\<exists>st''. run (Lit ''='' # k) st'' (dropWhile reSpace (dropWhile wordChar s')) = Some r)"
    if a: "run (Plus Word # CloseG 1 # Star Space # Lit ''='' # k) st' s' = Some r"
    for k st' s'
  proof (cases "takeWhile wordChar s' = []")
    case True
    then show ?thesis using a by (simp add: run_word_eq)
  next
    case False
    then have "run (CloseG 1 # Star Space # Lit ''='' # k) (adv st' (takeWhile wordChar s'))
                 (dropWhile wordChar s') = Some r"
      using a by (simp only: run_word_eq inClass_Word if_False)
    then have "\<exists>st''. run (Lit ''='' # k) st'' (dropWhile reSpace (dropWhile wordChar s')) = Some r"
      by (simp only: run.simps(10) run_space_eq inClass_Space) (erule exI)
    then show ?thesis using False by simp
  qed
  from assms have 0: "run (Lit ''SET'' # Plus Space # Lit ''@'' # OpenG 1 # Plus Word # CloseG 1
                  # Star Space # Lit ''='' # Star Space # ?K) st s = Some r"
    by (simp only: variableRegex_def)
  from lit [OF 0] have p: "prefix ''SET'' s"
    and 1: "run (Plus Space # Lit ''@'' # OpenG 1 # Plus Word # CloseG 1 # Star Space
                  # Lit ''='' # Star Space # ?K) (adv st ''SET'') r1 = Some r"
    unfolding r1_def by blast+
  from sp [OF 1] have w1: "ws1 \<noteq> []"
    and 2: "run (Lit ''@'' # OpenG 1 # Plus Word # CloseG 1 # Star Space
                  # Lit ''='' # Star Space # ?K) (adv (adv st ''SET'') ws1) d1 = Some r"
    unfolding ws1_def d1_def by blast+
  from lit [OF 2] have a: "prefix ''@'' d1"
    and "run (OpenG 1 # Plus Word # CloseG 1 # Star Space # Lit ''='' # Star Space # ?K)
           (adv (adv (adv st ''SET'') ws1) ''@'') r2 = Some r"
    unfolding r2_def by blast+
  then obtain st2 where 3: "run (Plus Word # CloseG 1 # Star Space # Lit ''='' # Star Space # ?K)
                  st2 r2 = Some r"
    by (simp only: run.simps(9))
  from wd [OF 3] obtain st3 where n: "name \<noteq> []"
    and 4: "run (Lit ''='' # Star Space # ?K) st3 r3 = Some r"
    unfolding name_def r3_def by blast
  from lit [OF 4] have e: "prefix ''='' r3"
    and 5: "run (Star Space # ?K) (adv st3 ''='') r4 = Some r"
    unfolding r4_def by blast+
  have v: "r4 \<noteq> []"
  proof
    assume "r4 = []"
    with 5 have "run (Star Space # ?K) (adv st3 ''='') [] = Some r" by (simp only:)
    then show False by simp
  qed
  have e1: "s = ''SET'' @ r1" unfolding r1_def using p by (rule prefix_split)
  have e2: "r1 = ws1 @ d1" unfolding ws1_def d1_def by simp
  have e3: "d1 = ''@'' @ r2" unfolding r2_def using a by (rule prefix_split)
  have e4: "r2 = name @ dropWhile wordChar r2" unfolding name_def by simp
  have e5: "dropWhile wordChar r2 = ws2 @ r3" unfolding ws2_def r3_def by simp
  have e6: "r3 = ''='' @ r4" unfolding r4_def using e by (rule prefix_split)
  have "s = ''SET'' @ ws1 @ ''@'' @ name @ ws2 @ ''='' @ r4"
    using e1 e2 e3 e4 e5 e6 by metis
  moreover have "list_all reSpace ws1" "list_all wordChar name" "list_all reSpace ws2"
    unfolding ws1_def name_def ws2_def by (auto simp: list_all_iff dest: set_takeWhileD)
  ultimately show ?thesis using w1 n v by blast
qed

text \<open>
  A line whose trimmed text holds a definition at some offset. The value starts at the
  first character after \<open>=\<close> that is no white space, and ends before the next \<open>;\<close>, or at
  the end of the line when no \<open>;\<close> follows. The line binds that definition when the pattern
  matches at no earlier offset.
\<close>

lemma variableBinding_leftmost:
  assumes line: "TrimSpace line =
      before @ ''SET'' @ ws1 @ ''@'' @ name @ ws2 @ ''='' @ ws3 @ rest"
    and ws1: "ws1 \<noteq> []" "list_all reSpace ws1"
    and name: "name \<noteq> []" "list_all wordChar name"
    and ws2: "list_all reSpace ws2" and ws3: "list_all reSpace ws3"
    and rest: "rest \<noteq> []" "\<not> reSpace (hd rest)"
    and nl: "CHR 0x0A \<notin> set line"
  shows "isVariableLine line"
    and "\<forall>j<length before. \<not> definitionAt (TrimSpace line) j \<Longrightarrow>
         variableBinding line =
           Some (name, TrimSpace (hd rest # takeWhile (\<lambda>c. c \<noteq> CHR '';'') (tl rest)))"
proof -
  let ?val = "hd rest # takeWhile (\<lambda>c. c \<noteq> CHR '';'') (tl rest)"
  let ?tail = "dropWhile (\<lambda>c. c \<noteq> CHR '';'') (tl rest)"
  let ?s = "''SET'' @ ws1 @ ''@'' @ name @ ws2 @ ''='' @ ws3 @ rest"
  have split: "rest = ?val @ ?tail" using rest(1) by (cases rest) simp_all
  have "set rest \<subseteq> set line" using TrimSpace_subset [of line] by (auto simp: line)
  then have nl': "CHR 0x0A \<notin> set rest" using nl by blast
  have "set ?val \<subseteq> set rest" using split by (metis set_append Un_upper1)
  then have v3: "CHR 0x0A \<notin> set ?val" using nl' by blast
  have v4: "CHR '';'' \<notin> set (tl ?val)" by (auto dest: set_takeWhileD)
  have v1: "?val \<noteq> []" by simp
  have v2: "\<not> reSpace (hd ?val)" using rest(2) by simp
  note val = v1 v2 v3 v4
  have tail: "?tail = [] \<or> hd ?tail = CHR '';''"
    using hd_dropWhile [of "\<lambda>c. c \<noteq> CHR '';''" "tl rest"] by auto
  have m: "\<exists>st' r. run variableRegex st ?s = Some (st', r) \<and> groups st' 1 = name
              \<and> groups st' 2 = ?val" for st
    using run_variableRegex_match [OF ws1 name ws2 ws3 val tail, of st] split by simp
  from m [of "start (True \<and> before = [])"] obtain r where
    "run variableRegex (start (True \<and> before = [])) ?s = Some r" by blast
  from search_found [OF this] show "isVariableLine line"
    by (auto simp: isVariableLine_def FindStringSubmatch_def line)
  assume first: "\<forall>j<length before. \<not> definitionAt (TrimSpace line) j"
  obtain st' r where r: "run variableRegex (start (True \<and> before = [])) ?s = Some (st', r)"
    "groups st' 1 = name" "groups st' 2 = ?val"
    using m by blast
  have "\<forall>j<length before. run variableRegex (start (True \<and> j = 0)) (drop j (before @ ?s)) = None"
  proof (intro allI impI)
    fix j assume "j < length before"
    then have "\<not> definitionAt (TrimSpace line) j" using first by blast
    then have "run variableRegex (start (j = 0)) (drop j (TrimSpace line)) = None"
      by (simp only: definitionAt_def not_not)
    then show "run variableRegex (start (True \<and> j = 0)) (drop j (before @ ?s)) = None"
      by (simp only: line simp_thms)
  qed
  moreover have "?s \<noteq> []" by simp
  ultimately have "search variableRegex True (before @ ?s) = Some (st', r)"
    using r(1) by (rule search_first)
  then show "variableBinding line = Some (name, TrimSpace ?val)"
    using r(2,3) by (simp add: variableBinding_def FindStringSubmatch_def line)
qed

text \<open>Where the pattern matches in a trimmed line, the text has that shape, and every
  variable-definition line has a leftmost definition, which it binds.\<close>

lemma definitionAt_shape:
  assumes "definitionAt (TrimSpace line) j"
  shows "\<exists>ws1 name ws2 ws3 rest.
           drop j (TrimSpace line) = ''SET'' @ ws1 @ ''@'' @ name @ ws2 @ ''='' @ ws3 @ rest
           \<and> ws1 \<noteq> [] \<and> list_all reSpace ws1 \<and> name \<noteq> [] \<and> list_all wordChar name
           \<and> list_all reSpace ws2 \<and> list_all reSpace ws3 \<and> rest \<noteq> [] \<and> \<not> reSpace (hd rest)"
proof -
  let ?t = "TrimSpace line"
  from assms obtain r where "run variableRegex (start (j = 0)) (drop j ?t) = Some r"
    by (auto simp: definitionAt_def)
  from run_variableRegex_text [OF this] obtain ws1 name ws2 r4 where
    s: "drop j ?t = ''SET'' @ ws1 @ ''@'' @ name @ ws2 @ ''='' @ r4"
    and h: "ws1 \<noteq> []" "list_all reSpace ws1" "name \<noteq> []" "list_all wordChar name"
      "list_all reSpace ws2" "r4 \<noteq> []"
    by blast
  have "drop j ?t \<noteq> []" using s by simp
  then have j: "j < length ?t" by simp
  then have "last (drop j ?t) = last ?t" by (rule last_drop)
  moreover have "last (drop j ?t) = last r4" using h(6) by (simp add: s)
  moreover have "\<not> reSpace (last ?t)" using j by (intro TrimSpace_last) auto
  ultimately have "\<not> reSpace (last r4)" by simp
  moreover have "last r4 \<in> set r4" using h(6) by simp
  ultimately have ne: "dropWhile reSpace r4 \<noteq> []"
    by (auto simp: dropWhile_eq_Nil_conv)
  then have hd: "\<not> reSpace (hd (dropWhile reSpace r4))" by (rule hd_dropWhile)
  have "drop j ?t = ''SET'' @ ws1 @ ''@'' @ name @ ws2 @ ''='' @ takeWhile reSpace r4
          @ dropWhile reSpace r4"
    by (simp add: s)
  moreover have "list_all reSpace (takeWhile reSpace r4)"
    by (auto simp: list_all_iff dest: set_takeWhileD)
  ultimately show ?thesis using h(1-5) ne hd by blast
qed

lemma variable_line_leftmost:
  assumes "isVariableLine line" and "CHR 0x0A \<notin> set line"
  shows "\<exists>before ws1 name ws2 ws3 rest.
           TrimSpace line = before @ ''SET'' @ ws1 @ ''@'' @ name @ ws2 @ ''='' @ ws3 @ rest
           \<and> ws1 \<noteq> [] \<and> list_all reSpace ws1 \<and> name \<noteq> [] \<and> list_all wordChar name
           \<and> list_all reSpace ws2 \<and> list_all reSpace ws3 \<and> rest \<noteq> [] \<and> \<not> reSpace (hd rest)
           \<and> (\<forall>j<length before. \<not> definitionAt (TrimSpace line) j)
           \<and> variableBinding line =
               Some (name, TrimSpace (hd rest # takeWhile (\<lambda>c. c \<noteq> CHR '';'') (tl rest)))"
proof -
  let ?t = "TrimSpace line"
  from assms(1) obtain r where "search variableRegex True ?t = Some r"
    by (auto simp: isVariableLine_def FindStringSubmatch_def split: option.splits)
  from search_offset [OF this] obtain k0 where
    "run variableRegex (start (True \<and> k0 = 0)) (drop k0 ?t) = Some r" by blast
  then have "definitionAt ?t k0" by (simp add: definitionAt_def)
  then have "\<exists>k. definitionAt ?t k" ..
  then obtain k where k: "definitionAt ?t k" "\<forall>j<k. \<not> definitionAt ?t j"
    using exists_least_iff [of "definitionAt ?t"] by blast
  from definitionAt_shape [OF k(1)] obtain ws1 name ws2 ws3 rest where
    s: "drop k ?t = ''SET'' @ ws1 @ ''@'' @ name @ ws2 @ ''='' @ ws3 @ rest"
    and h: "ws1 \<noteq> []" "list_all reSpace ws1" "name \<noteq> []" "list_all wordChar name"
      "list_all reSpace ws2" "list_all reSpace ws3" "rest \<noteq> []" "\<not> reSpace (hd rest)"
    by blast
  have "drop k ?t \<noteq> []" using s by simp
  then have len: "length (take k ?t) = k" by simp
  have t: "?t = take k ?t @ ''SET'' @ ws1 @ ''@'' @ name @ ws2 @ ''='' @ ws3 @ rest"
    using s by (metis append_take_drop_id)
  have first: "\<forall>j<length (take k ?t). \<not> definitionAt ?t j"
    using k(2) by (simp only: len)
  from variableBinding_leftmost(2) [OF t h assms(2) first] t h first
  show ?thesis by blast
qed

text \<open>The variable table after a line, and after lines that do not define a name.\<close>

lemma variables_parseLine:
  "variables (parseLine st l) =
     (case variableBinding l of
        None \<Rightarrow> variables st
      | Some (n, v) \<Rightarrow> (variables st)(n \<mapsto> v))"
proof (cases "variableBinding l")
  case None
  then have "FindStringSubmatch variableRegex (TrimSpace l) = None"
    by (simp add: variableBinding_def split: option.splits)
  then show ?thesis using None
    by (simp add: parseLine_def split: option.split)
next
  case (Some a)
  then show ?thesis by (cases a) (simp add: parseLine_variable)
qed

lemma variables_foldl_other:
  "\<forall>l \<in> set ls. map_option fst (variableBinding l) \<noteq> Some n \<Longrightarrow>
   variables (foldl parseLine st ls) n = variables st n"
proof (induction ls arbitrary: st)
  case Nil
  show ?case by simp
next
  case (Cons l ls)
  then have "variables (foldl parseLine (parseLine st l) ls) n = variables (parseLine st l) n"
    by simp
  moreover have "variables (parseLine st l) n = variables st n"
    using Cons.prems by (auto simp: variables_parseLine split: option.splits)
  ultimately show ?case by simp
qed

text \<open>
  Where the right-hand side of a definition holds no \<open>;\<close>, the table maps the name to it,
  stripped of surrounding white space and with its quote characters. When a name is
  defined more than once, the last definition in the file is the one that stays.
\<close>

lemma variables_last_definition:
  assumes "TrimSpace line = ''SET'' @ ws1 @ ''@'' @ name @ ws2 @ ''='' @ ws3 @ rest"
    and "ws1 \<noteq> []" "list_all reSpace ws1"
    and "name \<noteq> []" "list_all wordChar name"
    and "list_all reSpace ws2" and "list_all reSpace ws3"
    and "rest \<noteq> []" "\<not> reSpace (hd rest)"
    and "CHR 0x0A \<notin> set line" and "CHR '';'' \<notin> set rest"
    and "\<forall>l \<in> set post. map_option fst (variableBinding l) \<noteq> Some name"
  shows "snd (parseSQL (pre @ line # post)) name = Some (TrimSpace rest)"
proof -
  have "list_all (\<lambda>c. c \<noteq> CHR '';'') (tl rest)"
    using assms(8,11) by (cases rest) (auto simp: list_all_iff)
  then have "hd rest # takeWhile (\<lambda>c. c \<noteq> CHR '';'') (tl rest) = rest"
    using assms(8) by (simp add: takeWhile_all)
  moreover have "TrimSpace line = [] @ ''SET'' @ ws1 @ ''@'' @ name @ ws2 @ ''='' @ ws3 @ rest"
    using assms(1) by simp
  ultimately have "variableBinding line = Some (name, TrimSpace rest)"
    using variableBinding_leftmost(2) [OF _ assms(2-10), of "[]"] by simp
  then have "variables (parseLine (foldl parseLine initState pre) line) name = Some (TrimSpace rest)"
    by (simp add: variables_parseLine)
  then show ?thesis
    using variables_foldl_other [OF assms(12)] by (simp add: snd_parseSQL)
qed

text \<open>
  Claim C7. The claim says that the table holds the right-hand side of a definition
  exactly as it is written, its surrounding quote characters retained and the trailing \<open>;\<close>
  dropped. For the definition \<open>SET @sep = ";";\<close> the right-hand side is \<open>";"\<close>, and the table
  of \<open>parseSQL\<close> holds the opening quote alone: the value group of the pattern stops before
  the first \<open>;\<close> that follows, also inside a quoted value. The comments of \<open>parseSQL\<close> say
  that the pattern captures quoted and unquoted values and that the value is stored as
  it is, quotes preserved; the quoted value of the test \<open>TestParseVariables\<close>, which holds no
  \<open>;\<close>, is stored whole.
\<close>

theorem variable_value_cut_at_semicolon:
  "snd (parseSQL [''SET @sep = '' @ [CHR 0x22] @ '';'' @ [CHR 0x22] @ '';'']) ''sep''
     = Some [CHR 0x22]
   \<and> snd (parseSQL [''SET @sep = '' @ [CHR 0x22] @ '';'' @ [CHR 0x22] @ '';'']) ''sep''
     \<noteq> Some ([CHR 0x22] @ '';'' @ [CHR 0x22])
   \<and> snd (parseSQL [''SET @status='' @ [CHR 0x22] @ ''active'' @ [CHR 0x22] @ '';'']) ''status''
     = Some ([CHR 0x22] @ ''active'' @ [CHR 0x22])"
  by code_simp




section \<open>The earlier parser\<close>

lemma sim_save: "sim st st0 \<Longrightarrow> saveQuery st = saveQuery0 st0"
  by (auto simp: sim_def saveQuery_def saveQuery0_def split: option.splits)

lemma sim_step:
  "sim st st0 \<Longrightarrow> \<not> isVariableLine l \<Longrightarrow> sim (parseLine st l) (parseLine0 st0 l)"
  using sim_save [of st st0]
  by (auto simp: sim_def parseLine_def parseLine0_def isVariableLine_def split: option.splits)

lemma sim_foldl:
  "sim st st0 \<Longrightarrow> \<forall>l \<in> set ls. \<not> isVariableLine l \<Longrightarrow>
   sim (foldl parseLine st ls) (foldl parseLine0 st0 ls)"
  by (induction ls arbitrary: st st0) (auto intro: sim_step)

text \<open>
  Claim C9. For every file in which no line matches the variable-definition pattern, the
  statements of \<open>parseSQL\<close> are those of the earlier \<open>parseSQL\<close> without variables: the same
  names and texts in the same order.
\<close>

theorem parseSQL_refines_earlier:
  "\<forall>l \<in> set lines. \<not> isVariableLine l \<Longrightarrow> fst (parseSQL lines) = parseSQL0 lines"
  using sim_foldl [of initState initState0 lines]
  by (simp add: parseSQL_def parseSQL0_def Let_def sim_save sim_def initState_def initState0_def)

text \<open>A file without variable definitions, parsed by both versions.\<close>

theorem parseSQL_refines_earlier_witness:
  "list_all (\<lambda>l. \<not> isVariableLine l)
     [''---'', ''-- @name A'', ''SELECT 1;'', ''-- note'', ''---'', ''SELECT 2;'']
   \<and> fst (parseSQL [''---'', ''-- @name A'', ''SELECT 1;'', ''-- note'', ''---'', ''SELECT 2;''])
       = parseSQL0 [''---'', ''-- @name A'', ''SELECT 1;'', ''-- note'', ''---'', ''SELECT 2;'']
   \<and> parseSQL0 [''---'', ''-- @name A'', ''SELECT 1;'', ''-- note'', ''---'', ''SELECT 2;'']
       = [\<lparr>Name = ''A'', SQL = ''SELECT 1;''\<rparr>]"
proof -
  have h: "\<forall>l \<in> set [''---'', ''-- @name A'', ''SELECT 1;'', ''-- note'', ''---'', ''SELECT 2;''].
             \<not> isVariableLine l"
    by code_simp
  have v: "parseSQL0 [''---'', ''-- @name A'', ''SELECT 1;'', ''-- note'', ''---'', ''SELECT 2;'']
       = [\<lparr>Name = ''A'', SQL = ''SELECT 1;''\<rparr>]"
    by code_simp
  from parseSQL_refines_earlier [OF h] h v show ?thesis
    by (simp only: list_all_iff simp_thms)
qed

end
